theory Spec2Isabelle
  imports Complex_Main "HOL-Library.Multiset"
begin

section \<open>The IR of one basic block\<close>

text \<open>
  The search works on one basic block \<open>BB\<close> at a time. An instruction is named by a
  natural number; for an instruction of \<open>BB\<close> this number is its scalar id
  (\<open>VPCtx->getScalarId\<close>, an injective numbering of the block's values into
  \<open>[0, getNumValues())\<close>), so a bit vector over scalar ids is a set of such numbers.
  A value is an instruction (of \<open>BB\<close> or of another block), a constant, or anything
  else (an argument, say). \<open>I->getParent() == BB\<close> is membership in \<open>block\<close>.
  \<open>addrOf\<close> is the address of an interned operand pack: vectors of operand-pack
  pointers are sorted and searched by it. \<open>presetTy\<close> is the field \<open>Ty\<close> of an interned
  operand pack as its creator leaves it: \<open>computeOperandPacksForGeneral\<close> sets it for an
  operand pack of don't-care lanes, and it is null otherwise.
\<close>

type_synonym inst = nat
type_synonym ty = nat
type_synonym vty = "ty \<times> nat"

datatype val = Instr inst | Const nat | Arg nat

record ir =
  block :: "inst list"
  operands :: "inst \<Rightarrow> val list"
  users :: "inst \<Rightarrow> val list"
  isPHINode :: "inst \<Rightarrow> bool"
  isStoreInst :: "inst \<Rightarrow> bool"
  isLoadInst :: "inst \<Rightarrow> bool"
  getType :: "val \<Rightarrow> ty"
  getNumValues :: nat
  addrOf :: "val option list \<Rightarrow> nat"
  presetTy :: "val option list \<Rightarrow> (ty \<times> nat) option"

definition inBB :: "ir \<Rightarrow> inst \<Rightarrow> bool" where
  "inBB bb i = (i \<in> set (block bb))"

text \<open>
  The target cost interface (\<open>TargetTransformInfo\<close>), consumed as an oracle. Its costs
  are non-negative integers; the search accumulates them in a \<open>float\<close>, modelled by
  \<open>real\<close> (rounding is not modelled).
\<close>

record tti =
  getBroadcastCost :: "vty \<Rightarrow> nat"
  getPermuteSingleSrcCost :: "vty \<Rightarrow> nat"
  getInsertElementCost :: "vty \<Rightarrow> nat \<Rightarrow> nat"
  getExtractElementCost :: "vty \<Rightarrow> nat \<Rightarrow> nat"

section \<open>Operand packs and vector packs\<close>

text \<open>
  An operand pack is a vector of values; a null lane (don't care) is \<open>None\<close>. Operand
  packs are interned, so pointer equality is equality of the sequences.
\<close>

type_synonym opack = "val option list"

datatype pack_kind = General | Load | Store | Phi

text \<open>
  A vector pack, immutable after creation. \<open>getIntermediateInsts\<close> stands for the
  instructions taking part in the matches of a \<open>General\<close> pack (the function of that
  name belongs to the match manager); the other kinds do not use it.
\<close>

record vpack =
  getKind :: pack_kind
  getOrderedValues :: "val option list"
  getElements :: "nat set"
  getDepended :: "nat set"
  getIntermediateInsts :: "inst list"
  getOperandPacks :: "opack list"
  getCost :: real
  getProducingCost :: real

definition isStore :: "vpack \<Rightarrow> bool" where
  "isStore VP = (getKind VP = Store)"

definition isLoad :: "vpack \<Rightarrow> bool" where
  "isLoad VP = (getKind VP = Load)"

section \<open>The frontier\<close>

text \<open>
  \<open>BBIt\<close> is a reverse iterator into the block: the number of positions it has moved
  from \<open>rbegin()\<close>; \<open>length (block bb)\<close> is \<open>rend()\<close>.
\<close>

record frontier =
  BBIt :: nat
  UnresolvedScalars :: "nat set"
  FreeInsts :: "nat set"
  UsableInsts :: "nat set"
  UnresolvedPacks :: "opack list"

text \<open>The body of the loop over \<open>I.users()\<close> in the constructor \<open>Frontier::Frontier\<close>:
  the state is \<open>(UnresolvedScalars, AllUsersResolved)\<close>.\<close>

fun scanUsers :: "ir \<Rightarrow> inst \<Rightarrow> val list \<Rightarrow> nat set \<times> bool \<Rightarrow> nat set \<times> bool" where
  "scanUsers bb InstId [] st = st"
| "scanUsers bb InstId (Instr u # us) (US, allRes) =
     (if \<not> inBB bb u then scanUsers bb InstId us (insert InstId US, allRes)
      else scanUsers bb InstId us (US, False))"
| "scanUsers bb InstId (_ # us) st = scanUsers bb InstId us st"

text \<open>The loop over the instructions of the block; the state is
  \<open>(UnresolvedScalars, UsableInsts)\<close>.\<close>

fun scanBlock :: "ir \<Rightarrow> inst list \<Rightarrow> nat set \<times> nat set \<Rightarrow> nat set \<times> nat set" where
  "scanBlock bb [] st = st"
| "scanBlock bb (i # is) (US, Usable) =
     (let (US', allRes) = scanUsers bb i (users bb i) (US, True)
      in scanBlock bb is (US', if allRes \<or> isPHINode bb i then insert i Usable else Usable))"

definition Frontier :: "ir \<Rightarrow> frontier" where
  "Frontier bb =
     (let (US, Usable) = scanBlock bb (block bb) ({}, {})
      in \<lparr> BBIt = 0, UnresolvedScalars = US, FreeInsts = {0 ..< getNumValues bb},
           UsableInsts = Usable, UnresolvedPacks = [] \<rparr>)"

definition getNextFreeInst :: "ir \<Rightarrow> frontier \<Rightarrow> inst option" where
  "getNextFreeInst bb F =
     (if BBIt F \<noteq> length (block bb) then Some (rev (block bb) ! BBIt F) else None)"

definition isFree :: "frontier \<Rightarrow> inst \<Rightarrow> bool" where
  "isFree F i = (i \<in> FreeInsts F)"

definition isUsable :: "frontier \<Rightarrow> inst \<Rightarrow> bool" where
  "isUsable F i = (i \<in> UsableInsts F)"

subsection \<open>Freezing one instruction\<close>

text \<open>
  The loop over \<open>I->operands()\<close> in \<open>freezeOneInst\<close>. \<open>Free\<close> is \<open>FreeInsts\<close> after the bit
  of \<open>I\<close> has been reset; the loop only writes \<open>UsableInsts\<close>.
\<close>

definition isFreeUserInBB :: "ir \<Rightarrow> nat set \<Rightarrow> val \<Rightarrow> bool" where
  "isFreeUserInBB bb Free U =
     (case U of Instr UserInst \<Rightarrow> inBB bb UserInst \<and> UserInst \<in> Free | _ \<Rightarrow> False)"

fun freezeOperands :: "ir \<Rightarrow> nat set \<Rightarrow> val list \<Rightarrow> nat set \<Rightarrow> nat set" where
  "freezeOperands bb Free [] Usable = Usable"
| "freezeOperands bb Free (Instr OI # ops) Usable =
     (if \<not> inBB bb OI then freezeOperands bb Free ops Usable
      else if OI \<notin> Free then freezeOperands bb Free ops Usable
      else if list_ex (isFreeUserInBB bb Free) (users bb OI)
        then freezeOperands bb Free ops Usable
      else freezeOperands bb Free ops (insert OI Usable))"
| "freezeOperands bb Free (_ # ops) Usable = freezeOperands bb Free ops Usable"

text \<open>\<open>None\<close>: the assertion \<open>FreeInsts.test(InstId)\<close> fails.\<close>

definition freezeOneInst :: "ir \<Rightarrow> frontier \<Rightarrow> inst \<Rightarrow> frontier option" where
  "freezeOneInst bb F I =
     (if I \<notin> FreeInsts F then None
      else let Free = FreeInsts F - {I}
           in Some (F\<lparr> FreeInsts := Free,
                       UnresolvedScalars := UnresolvedScalars F - {I},
                       UsableInsts := freezeOperands bb Free (operands bb I) (UsableInsts F - {I}) \<rparr>))"

definition advanceBBIt :: "ir \<Rightarrow> frontier \<Rightarrow> frontier" where
  "advanceBBIt bb F =
     F\<lparr> BBIt := BBIt F +
            length (takeWhile (\<lambda>i. i \<notin> FreeInsts F) (drop (BBIt F) (rev (block bb)))) \<rparr>"

definition isFreeLane :: "ir \<Rightarrow> frontier \<Rightarrow> val option \<Rightarrow> bool" where
  "isFreeLane bb F V =
     (case V of Some (Instr I) \<Rightarrow> inBB bb I \<and> I \<in> FreeInsts F | _ \<Rightarrow> False)"

definition resolved :: "ir \<Rightarrow> frontier \<Rightarrow> opack \<Rightarrow> bool" where
  "resolved bb F OP = (\<not> list_ex (isFreeLane bb F) OP)"

subsection \<open>Vector types\<close>

text \<open>
  \<open>getVectorType(const OperandPack &)\<close>: the type in the field \<open>Ty\<close> of the pack if it is
  set; else the type of the first non-null lane, with as many elements as the pack has
  lanes. \<open>None\<close>: the assertion "Operand pack can't be all empty" fails. (The function
  stores its result in \<open>Ty\<close>; a later call then returns the same type, so this write is
  not modelled.)
\<close>

fun firstNonNull :: "opack \<Rightarrow> val option" where
  "firstNonNull [] = None"
| "firstNonNull (None # Vs) = firstNonNull Vs"
| "firstNonNull (Some V # Vs) = Some V"

definition getVectorTypeOP :: "ir \<Rightarrow> opack \<Rightarrow> vty option" where
  "getVectorTypeOP bb OP =
     (case presetTy bb OP of
        Some Ty \<Rightarrow> Some Ty
      | None \<Rightarrow>
         (case firstNonNull OP of None \<Rightarrow> None | Some V \<Rightarrow> Some (getType bb V, length OP)))"

text \<open>
  \<open>getVectorType(const VectorPack &)\<close>: the type of the first element (the one of least
  scalar id), with as many elements as the pack has. \<open>None\<close>: the pack has no element
  and the code dereferences the end iterator.
\<close>

definition getVectorTypeVP :: "ir \<Rightarrow> vpack \<Rightarrow> vty option" where
  "getVectorTypeVP bb VP =
     (if getElements VP = {} then None
      else Some (getType bb (Instr (Min (getElements VP))), card (getElements VP)))"

text \<open>\<open>llvm::is_splat\<close>: the range is not empty and all its elements are equal.\<close>

definition is_splat :: "'a list \<Rightarrow> bool" where
  "is_splat xs = (xs \<noteq> [] \<and> list_all (\<lambda>x. x = hd xs) xs)"

text \<open>\<open>std::is_permutation\<close> on two ranges of the same length.\<close>

fun is_permutation :: "'a list \<Rightarrow> 'a list \<Rightarrow> bool" where
  "is_permutation [] ys = (ys = [])"
| "is_permutation (x # xs) ys = (x \<in> set ys \<and> is_permutation xs (remove1 x ys))"

subsection \<open>Vectors of operand-pack pointers\<close>

text \<open>Modelled from the spec: \<open>remove(X, Ids)\<close>, declared outside the sources, marks the
  packs at the indices \<open>Ids\<close> resolved: it drops them from the vector \<open>X\<close>.\<close>

definition remove_vec :: "'a list \<Rightarrow> nat list \<Rightarrow> 'a list" where
  "remove_vec X Ids = map snd (filter (\<lambda>(i, x). i \<notin> set Ids) (zip [0 ..< length X] X))"

text \<open>\<open>std::lower_bound\<close> and \<open>std::binary_search\<close> by address, as the standard library
  computes them on a range that need not be sorted.\<close>

function lower_bound :: "(opack \<Rightarrow> nat) \<Rightarrow> opack list \<Rightarrow> nat \<Rightarrow> nat \<Rightarrow> opack \<Rightarrow> nat" where
  "lower_bound addr X first cnt v =
     (if cnt = 0 then first
      else let step = cnt div 2; it = first + step
           in if addr (X ! it) < addr v
              then lower_bound addr X (it + 1) (cnt - (step + 1)) v
              else lower_bound addr X first step v)"
  by pat_completeness auto
termination
  by (relation "measure (\<lambda>(addr, X, first, cnt, v). cnt)") auto

definition binary_search :: "(opack \<Rightarrow> nat) \<Rightarrow> opack list \<Rightarrow> opack \<Rightarrow> bool" where
  "binary_search addr X v =
     (let first = lower_bound addr X 0 (length X) v
      in first \<noteq> length X \<and> \<not> addr v < addr (X ! first))"

definition sortPacks :: "ir \<Rightarrow> opack list \<Rightarrow> opack list" where
  "sortPacks bb X = sort_key (addrOf bb) X"

subsection \<open>Scalarizing one instruction: \<open>advanceInplace(Instruction *)\<close>\<close>

text \<open>The inner loop over the lanes of \<open>OP\<close>, from lane \<open>i\<close> on: the insert cost paid for
  the lanes that are \<open>I\<close>.\<close>

fun insertCostLanes :: "tti \<Rightarrow> vty \<Rightarrow> inst \<Rightarrow> nat \<Rightarrow> opack \<Rightarrow> nat" where
  "insertCostLanes T VecTy I i [] = 0"
| "insertCostLanes T VecTy I i (V # Vs) =
     (if V = Some (Instr I) then 2 * getInsertElementCost T VecTy i else 0)
       + insertCostLanes T VecTy I (Suc i) Vs"

text \<open>
  The loop over \<open>UnresolvedPacks\<close>, from index \<open>i\<close> on, run on the frontier \<open>F\<close> in which
  \<open>I\<close> is frozen already. It yields the cost paid and \<open>ResolvedPackIds\<close>. \<open>None\<close>: the
  assertion of \<open>getVectorType\<close> fails, or the assertion that the vector type has as many
  elements as the pack has lanes.
\<close>

fun scalarizePacks ::
  "ir \<Rightarrow> tti \<Rightarrow> frontier \<Rightarrow> inst \<Rightarrow> nat \<Rightarrow> opack list \<Rightarrow> (nat \<times> nat list) option" where
  "scalarizePacks bb T F I i [] = Some (0, [])"
| "scalarizePacks bb T F I i (OP # OPs) =
     (case getVectorTypeOP bb OP of
        None \<Rightarrow> None
      | Some VecTy \<Rightarrow>
         (case scalarizePacks bb T F I (Suc i) OPs of
            None \<Rightarrow> None
          | Some (Cost, Ids) \<Rightarrow>
              if snd VecTy \<noteq> length OP then None
              else if is_splat OP \<and> hd OP = Some (Instr I)
              then Some (getBroadcastCost T VecTy + Cost, i # Ids)
              else Some (insertCostLanes T VecTy I 0 OP + Cost,
                         if resolved bb F OP then i # Ids else Ids)))"

text \<open>The loop over \<open>I->operands()\<close> that marks the free operands of \<open>I\<close> as unresolved
  scalars.\<close>

fun markOperands :: "ir \<Rightarrow> nat set \<Rightarrow> val list \<Rightarrow> nat set \<Rightarrow> nat set" where
  "markOperands bb Free [] US = US"
| "markOperands bb Free (Instr I2 # ops) US =
     (if inBB bb I2 \<and> I2 \<in> Free then markOperands bb Free ops (insert I2 US)
      else markOperands bb Free ops US)"
| "markOperands bb Free (_ # ops) US = markOperands bb Free ops US"

definition advanceInplace_inst ::
  "ir \<Rightarrow> tti \<Rightarrow> frontier \<Rightarrow> inst \<Rightarrow> (real \<times> frontier) option" where
  "advanceInplace_inst bb T F I =
     (case freezeOneInst bb F I of
        None \<Rightarrow> None
      | Some F1 \<Rightarrow>
         (let F2 = advanceBBIt bb F1
          in case scalarizePacks bb T F2 I 0 (UnresolvedPacks F2) of
               None \<Rightarrow> None
             | Some (Cost, ResolvedPackIds) \<Rightarrow>
                 Some (real Cost,
                       F2\<lparr> UnresolvedScalars :=
                              markOperands bb (FreeInsts F2) (operands bb I) (UnresolvedScalars F2),
                            UnresolvedPacks :=
                              sortPacks bb (remove_vec (UnresolvedPacks F2) ResolvedPackIds) \<rparr>)))"

subsection \<open>Committing a vector pack: \<open>advanceInplace(const VectorPack *)\<close>\<close>

definition isProducedLane :: "ir \<Rightarrow> vpack \<Rightarrow> val option \<Rightarrow> bool" where
  "isProducedLane bb VP V =
     (case V of Some (Instr I) \<Rightarrow> inBB bb I \<and> I \<in> getElements VP | _ \<Rightarrow> False)"

definition resolveOperandPack :: "ir \<Rightarrow> vpack \<Rightarrow> opack \<Rightarrow> bool" where
  "resolveOperandPack bb VP OP = list_ex (isProducedLane bb VP) OP"

definition isConstantLane :: "val option \<Rightarrow> bool" where
  "isConstantLane V = (case V of Some (Const c) \<Rightarrow> True | _ \<Rightarrow> False)"

definition isConstantPack :: "opack \<Rightarrow> bool" where
  "isConstantPack OpndPack = list_all (\<lambda>V. V = None \<or> isConstantLane V) OpndPack"

text \<open>\<open>getGatherCost\<close> returns an \<open>unsigned\<close>. \<open>None\<close>: \<open>getVectorType(VP)\<close> is undefined.\<close>

definition getGatherCost :: "ir \<Rightarrow> tti \<Rightarrow> vpack \<Rightarrow> opack \<Rightarrow> nat option" where
  "getGatherCost bb T VP OpndPack =
     (if isConstantPack OpndPack then Some 0
      else let VPVals = getOrderedValues VP
           in if length VPVals = length OpndPack
              then (if VPVals = OpndPack then Some 0
                    else if is_permutation VPVals OpndPack
                      then map_option (getPermuteSingleSrcCost T) (getVectorTypeVP bb VP)
                    else Some 2)
              else Some 2)"

text \<open>
  The loop over the output lanes that pays the extract cost, from lane \<open>LaneId\<close> on.
  \<open>VecTy\<close> is \<open>None\<close> when the variable is not initialised (a store pack); reading it
  then has no defined result (\<open>None\<close>).
\<close>

fun extractCostLanes :: "tti \<Rightarrow> nat set \<Rightarrow> vty option \<Rightarrow> nat \<Rightarrow> val option list \<Rightarrow> nat option" where
  "extractCostLanes T US VecTy LaneId [] = Some 0"
| "extractCostLanes T US VecTy LaneId (Some (Instr I) # Vs) =
     (if I \<in> US
      then (case VecTy of
              None \<Rightarrow> None
            | Some Ty \<Rightarrow> map_option ((+) (getExtractElementCost T Ty LaneId))
                          (extractCostLanes T US VecTy (Suc LaneId) Vs))
      else extractCostLanes T US VecTy (Suc LaneId) Vs)"
| "extractCostLanes T US VecTy LaneId (_ # Vs) = extractCostLanes T US VecTy (Suc LaneId) Vs"

text \<open>Position of an instruction in a list (\<open>comesBefore\<close> compares positions in the
  block).\<close>

fun positionIn :: "'a list \<Rightarrow> 'a \<Rightarrow> nat" where
  "positionIn [] x = 0"
| "positionIn (y # ys) x = (if x = y then 0 else Suc (positionIn ys x))"

text \<open>
  \<open>computeReplacedInsts\<close>: the non-null ordered values for a load, store or phi pack,
  the instructions of the matches for a general pack; duplicates removed, later
  instructions first. \<open>None\<close>: a \<open>cast<Instruction>\<close> fails.
\<close>

fun castInstructions :: "val option list \<Rightarrow> inst list option" where
  "castInstructions [] = Some []"
| "castInstructions (None # Vs) = castInstructions Vs"
| "castInstructions (Some (Instr I) # Vs) = map_option ((#) I) (castInstructions Vs)"
| "castInstructions (Some _ # Vs) = None"

definition laterFirst :: "ir \<Rightarrow> inst list \<Rightarrow> inst list" where
  "laterFirst bb Is = rev (sort_key (positionIn (block bb)) (remdups Is))"

definition getReplacedInsts :: "ir \<Rightarrow> vpack \<Rightarrow> inst list option" where
  "getReplacedInsts bb VP =
     (if getKind VP \<noteq> General
      then map_option (laterFirst bb) (castInstructions (getOrderedValues VP))
      else Some (laterFirst bb (getIntermediateInsts VP)))"

fun freezeInsts :: "ir \<Rightarrow> frontier \<Rightarrow> inst list \<Rightarrow> frontier option" where
  "freezeInsts bb F [] = Some F"
| "freezeInsts bb F (I # Is) =
     (case freezeOneInst bb F I of None \<Rightarrow> None | Some F1 \<Rightarrow> freezeInsts bb F1 Is)"

text \<open>The loop over \<open>UnresolvedPacks\<close> of a pack that is not a store, from index \<open>i\<close> on:
  the gather cost paid and \<open>ResolvedPackIds\<close>.\<close>

fun gatherPacks ::
  "ir \<Rightarrow> tti \<Rightarrow> frontier \<Rightarrow> vpack \<Rightarrow> nat \<Rightarrow> opack list \<Rightarrow> (nat \<times> nat list) option" where
  "gatherPacks bb T F VP i [] = Some (0, [])"
| "gatherPacks bb T F VP i (OP # OPs) =
     (case gatherPacks bb T F VP (Suc i) OPs of
        None \<Rightarrow> None
      | Some (Cost, Ids) \<Rightarrow>
          if resolveOperandPack bb VP OP
          then (case getGatherCost bb T VP OP of
                  None \<Rightarrow> None
                | Some G \<Rightarrow> Some (G + Cost, if resolved bb F OP then i # Ids else Ids))
          else Some (Cost, Ids))"

text \<open>The inner loop over the lanes of an operand pack of the new pack, from lane
  \<open>LaneId\<close> on: the insert cost of the lanes that are no instruction of the block.\<close>

fun operandInsertCost :: "ir \<Rightarrow> tti \<Rightarrow> vty \<Rightarrow> nat \<Rightarrow> opack \<Rightarrow> nat" where
  "operandInsertCost bb T OperandTy LaneId [] = 0"
| "operandInsertCost bb T OperandTy LaneId (None # Vs) =
     operandInsertCost bb T OperandTy (Suc LaneId) Vs"
| "operandInsertCost bb T OperandTy LaneId (Some (Const c) # Vs) =
     operandInsertCost bb T OperandTy (Suc LaneId) Vs"
| "operandInsertCost bb T OperandTy LaneId (Some (Instr I) # Vs) =
     (if \<not> inBB bb I then 2 * getInsertElementCost T OperandTy LaneId else 0)
       + operandInsertCost bb T OperandTy (Suc LaneId) Vs"
| "operandInsertCost bb T OperandTy LaneId (Some (Arg a) # Vs) =
     2 * getInsertElementCost T OperandTy LaneId
       + operandInsertCost bb T OperandTy (Suc LaneId) Vs"

text \<open>The loop over the operand packs of the new pack; the state is the cost paid and
  \<open>UnresolvedPacks\<close>.\<close>

fun trackOperandPacks ::
  "ir \<Rightarrow> tti \<Rightarrow> frontier \<Rightarrow> opack list \<Rightarrow> nat \<times> opack list \<Rightarrow> (nat \<times> opack list) option" where
  "trackOperandPacks bb T F [] st = Some st"
| "trackOperandPacks bb T F (OpndPack # rest) (Cost, UP) =
     (case getVectorTypeOP bb OpndPack of
        None \<Rightarrow> None
      | Some OperandTy \<Rightarrow>
          trackOperandPacks bb T F rest
            (Cost + operandInsertCost bb T OperandTy 0 OpndPack,
             if \<not> resolved bb F OpndPack \<and> \<not> binary_search (addrOf bb) UP OpndPack
             then UP @ [OpndPack] else UP))"

definition advanceInplace_pack ::
  "ir \<Rightarrow> tti \<Rightarrow> frontier \<Rightarrow> vpack \<Rightarrow> (real \<times> frontier) option" where
  "advanceInplace_pack bb T F VP =
     (if \<not> isStore VP \<and> getVectorTypeVP bb VP = None then None
      else
       let VecTy = (if \<not> isStore VP then getVectorTypeVP bb VP else None)
       in case extractCostLanes T (UnresolvedScalars F) VecTy 0 (getOrderedValues VP) of
            None \<Rightarrow> None
          | Some ExtractCost \<Rightarrow>
       (case getReplacedInsts bb VP of
            None \<Rightarrow> None
          | Some ReplacedInsts \<Rightarrow>
       (case freezeInsts bb F ReplacedInsts of
            None \<Rightarrow> None
          | Some F1 \<Rightarrow>
       (let F2 = advanceBBIt bb F1
        in case (if \<not> isStore VP then gatherPacks bb T F2 VP 0 (UnresolvedPacks F2)
                 else Some (0, [])) of
             None \<Rightarrow> None
           | Some (GatherCost, ResolvedPackIds) \<Rightarrow>
        (case trackOperandPacks bb T F2 (getOperandPacks VP) (0, UnresolvedPacks F2) of
             None \<Rightarrow> None
           | Some (InsertCost, UP) \<Rightarrow>
               Some (getCost VP + real (ExtractCost + GatherCost + InsertCost),
                     F2\<lparr> UnresolvedPacks := sortPacks bb (remove_vec UP ResolvedPackIds) \<rparr>))))))"

subsection \<open>Replacing an operand pack by shuffled inputs: \<open>advanceInplace(ShuffleTask)\<close>\<close>

text \<open>
  The type \<open>ShuffleTask\<close> is declared outside the sources. The transition reads its
  output pack, its input packs and its cost \<open>getCost(TTI)\<close>, which are the fields here.
\<close>

record ShuffleTask =
  Output :: opack
  Inputs :: "opack list"
  shuffleCost :: "tti \<Rightarrow> real"

text \<open>\<open>None\<close>: one of the two assertions fails (the output pack is not found where
  \<open>std::lower_bound\<close> looks for it).\<close>

definition advanceInplace_shuffle ::
  "ir \<Rightarrow> tti \<Rightarrow> frontier \<Rightarrow> ShuffleTask \<Rightarrow> (real \<times> frontier) option" where
  "advanceInplace_shuffle bb T F ST =
     (let X = UnresolvedPacks F;
          It = lower_bound (addrOf bb) X 0 (length X) (Output ST)
      in if It = length X then None
         else if X ! It \<noteq> Output ST then None
         else Some (shuffleCost ST T,
                    F\<lparr> UnresolvedPacks :=
                         sortPacks bb (butlast (X[It := last X]) @ Inputs ST) \<rparr>))"

subsection \<open>Frontiers reached by the search\<close>

text \<open>
  The frontiers reached from the fresh frontier of the block by the three transitions:
  scalarizing an instruction, committing a vector pack, and a shuffle. A transition
  whose assertions fail reaches nothing.
\<close>

inductive reachable :: "ir \<Rightarrow> tti \<Rightarrow> frontier \<Rightarrow> bool" for bb :: ir and T :: tti where
  fresh: "reachable bb T (Frontier bb)"
| scalarize: "reachable bb T F \<Longrightarrow> advanceInplace_inst bb T F I = Some (c, F')
     \<Longrightarrow> reachable bb T F'"
| commit: "reachable bb T F \<Longrightarrow> advanceInplace_pack bb T F VP = Some (c, F')
     \<Longrightarrow> reachable bb T F'"
| shuffle: "reachable bb T F \<Longrightarrow> advanceInplace_shuffle bb T F ST = Some (c, F')
     \<Longrightarrow> reachable bb T F'"


section \<open>Seed memory packs\<close>

text \<open>
  What the packer keeps for the block: the two consecutive-access DAGs (an access is
  mapped to its successors, in the order the set is iterated; an access that is no key
  of the DAG has none), the dependence analysis, and the pack constructors of the
  interning context.
\<close>

record packer =
  getLoadDAG :: "inst \<Rightarrow> inst list"
  getStoreDAG :: "inst \<Rightarrow> inst list"
  LDA_getDepended :: "inst \<Rightarrow> nat set"
  createLoadPack :: "inst list \<Rightarrow> nat set \<Rightarrow> nat set \<Rightarrow> vpack"
  createStorePack :: "inst list \<Rightarrow> nat set \<Rightarrow> nat set \<Rightarrow> vpack"
  extendOperandPack :: "frontier \<Rightarrow> opack \<Rightarrow> vpack list \<times> vpack option"
  tryCoalesceLoads :: "vpack \<Rightarrow> vpack list \<Rightarrow> vpack option"

text \<open>Modelled from the spec: \<open>checkIndependence\<close>, declared outside the sources. The
  instruction \<open>I\<close> may join the lanes \<open>Elements\<close> (whose dependences are \<open>Depended\<close>) when it
  depends on none of them and none of them depends on it.\<close>

definition checkIndependence :: "packer \<Rightarrow> inst \<Rightarrow> nat set \<Rightarrow> nat set \<Rightarrow> bool" where
  "checkIndependence Pkr I Elements Depended =
     (Elements \<inter> LDA_getDepended Pkr I = {} \<and> I \<notin> Depended)"

definition AccessDAG :: "packer \<Rightarrow> bool \<Rightarrow> inst \<Rightarrow> inst list" where
  "AccessDAG Pkr IsStore = (if IsStore then getStoreDAG Pkr else getLoadDAG Pkr)"

definition createMemPack :: "packer \<Rightarrow> bool \<Rightarrow> inst list \<Rightarrow> nat set \<Rightarrow> nat set \<Rightarrow> vpack" where
  "createMemPack Pkr IsStore = (if IsStore then createStorePack Pkr else createLoadPack Pkr)"

text \<open>
  The recursive lambda \<open>Enumerate\<close> of \<open>getSeedMemPacks\<close>; the result is what it appends to
  \<open>Seeds\<close>. The chain starts with one access and grows by one per call, so it is never
  longer than a \<open>VL\<close> of at least one; the second test only makes the function total.
\<close>

function Enumerate ::
  "packer \<Rightarrow> bool \<Rightarrow> nat \<Rightarrow> inst list \<Rightarrow> nat set \<Rightarrow> nat set \<Rightarrow> vpack list" where
  "Enumerate Pkr IsStore VL Accesses Elements Depended =
     (if length Accesses = VL then [createMemPack Pkr IsStore Accesses Elements Depended]
      else if VL < length Accesses then []
      else concat (map (\<lambda>Next.
             if \<not> checkIndependence Pkr Next Elements Depended then []
             else Enumerate Pkr IsStore VL (Accesses @ [Next]) (insert Next Elements)
                    (Depended \<union> LDA_getDepended Pkr Next))
           (AccessDAG Pkr IsStore (last Accesses))))"
  by pat_completeness auto
termination
  by (relation "measure (\<lambda>(Pkr, IsStore, VL, Accesses, Elements, Depended). VL - length Accesses)")
     auto

declare Enumerate.simps [simp del]

definition getSeedMemPacks :: "packer \<Rightarrow> bool \<Rightarrow> inst \<Rightarrow> nat \<Rightarrow> vpack list" where
  "getSeedMemPacks Pkr IsStore Access VL =
     Enumerate Pkr IsStore VL [Access] {Access} (LDA_getDepended Pkr Access)"

text \<open>\<open>enumerate\<close>: the candidate load packs of the block.\<close>

definition enumerate_bb :: "ir \<Rightarrow> packer \<Rightarrow> vpack list" where
  "enumerate_bb bb Pkr =
     concat (map (\<lambda>I. if isLoadInst bb I
                       then concat (map (getSeedMemPacks Pkr False I) [2, 4, 8, 16])
                       else [])
                 (block bb))"

text \<open>The first loop of \<open>improvePlan\<close>: the seed store packs of the block.\<close>

definition improvePlan_Seeds :: "ir \<Rightarrow> packer \<Rightarrow> vpack list" where
  "improvePlan_Seeds bb Pkr =
     concat (map (\<lambda>I. if isStoreInst bb I
                       then concat (map (getSeedMemPacks Pkr True I) [2, 4, 8, 16, 32])
                       else [])
                 (block bb))"

text \<open>The spec's words for a chain of the DAG and for pairwise independence.\<close>

definition isChain :: "(inst \<Rightarrow> inst list) \<Rightarrow> inst list \<Rightarrow> bool" where
  "isChain dag xs = (\<forall>i. Suc i < length xs \<longrightarrow> xs ! Suc i \<in> set (dag (xs ! i)))"

definition independent :: "packer \<Rightarrow> inst \<Rightarrow> inst \<Rightarrow> bool" where
  "independent Pkr I J = (I \<notin> LDA_getDepended Pkr J \<and> J \<notin> LDA_getDepended Pkr I)"

definition pairwiseIndependent :: "packer \<Rightarrow> inst list \<Rightarrow> bool" where
  "pairwiseIndependent Pkr xs =
     (\<forall>i j. i < j \<and> j < length xs \<longrightarrow> independent Pkr (xs ! i) (xs ! j))"

definition seedChains :: "packer \<Rightarrow> bool \<Rightarrow> inst \<Rightarrow> nat \<Rightarrow> inst list set" where
  "seedChains Pkr IsStore A VL =
     {xs. length xs = VL \<and> xs \<noteq> [] \<and> hd xs = A \<and> isChain (AccessDAG Pkr IsStore) xs
          \<and> pairwiseIndependent Pkr xs}"

definition packOfChain :: "packer \<Rightarrow> bool \<Rightarrow> inst list \<Rightarrow> vpack" where
  "packOfChain Pkr IsStore xs =
     createMemPack Pkr IsStore xs (set xs) (\<Union>I \<in> set xs. LDA_getDepended Pkr I)"

section \<open>The node factory of the search tree\<close>

text \<open>Modelled from the spec: \<open>FrontierHashInfo::isEqual\<close>, declared outside the sources,
  compares the cursor position, the free instructions, the unresolved packs (a sorted
  vector of interned pointers) and the unresolved scalars.\<close>

definition isEqual :: "frontier \<Rightarrow> frontier \<Rightarrow> bool" where
  "isEqual F G =
     (BBIt F = BBIt G \<and> FreeInsts F = FreeInsts G \<and> UnresolvedPacks F = UnresolvedPacks G
      \<and> UnresolvedScalars F = UnresolvedScalars G)"

text \<open>
  A node owns a frontier and, possibly, a partial pack (of a type \<open>'pp\<close> that plays no
  part here). A pointer to a node is its index in \<open>Nodes\<close>. \<open>FrontierToNodeMap\<close> is a
  hash map keyed by frontiers that compares keys with \<open>isEqual\<close>; it is kept as the list
  of its entries, oldest first.
\<close>

record 'pp UCTNode =
  nodeFrt :: frontier
  getPartialPack :: "'pp option"

record 'pp UCTNodeFactory =
  FrontierToNodeMap :: "(frontier \<times> nat) list"
  Nodes :: "'pp UCTNode list"
  Frontiers :: "frontier list"

definition findNode :: "(frontier \<times> nat) list \<Rightarrow> frontier \<Rightarrow> (frontier \<times> nat) option" where
  "findNode M Frt = List.find (\<lambda>(K, N). isEqual K Frt) M"

text \<open>\<open>getNode(std::unique_ptr<Frontier>)\<close>. \<open>None\<close>: the assertion fails.\<close>

definition getNode ::
  "'pp UCTNodeFactory \<Rightarrow> frontier \<Rightarrow> (nat \<times> 'pp UCTNodeFactory) option" where
  "getNode Fac Frt =
     (case findNode (FrontierToNodeMap Fac) Frt of
        Some (K, N) \<Rightarrow>
          (if getPartialPack (Nodes Fac ! N) \<noteq> None then None else Some (N, Fac))
      | None \<Rightarrow>
          (let NewNode = length (Nodes Fac)
           in Some (NewNode,
                    Fac\<lparr> FrontierToNodeMap := FrontierToNodeMap Fac @ [(Frt, NewNode)],
                         Nodes := Nodes Fac @ [\<lparr> nodeFrt = Frt, getPartialPack = None \<rparr>],
                         Frontiers := Frontiers Fac @ [Frt] \<rparr>)))"

text \<open>\<open>getNode(const Frontier *, std::unique_ptr<PartialPack>)\<close>.\<close>

definition getNodePP ::
  "'pp UCTNodeFactory \<Rightarrow> frontier \<Rightarrow> 'pp \<Rightarrow> nat \<times> 'pp UCTNodeFactory" where
  "getNodePP Fac Frt PP =
     (length (Nodes Fac),
      Fac\<lparr> Nodes := Nodes Fac @ [\<lparr> nodeFrt = Frt, getPartialPack = Some PP \<rparr>] \<rparr>)"

text \<open>Any sequence of calls of the two functions.\<close>

datatype 'pp request = GetNode frontier | GetNodePP frontier 'pp

fun getNodes :: "'pp UCTNodeFactory \<Rightarrow> 'pp request list \<Rightarrow> 'pp UCTNodeFactory option" where
  "getNodes Fac [] = Some Fac"
| "getNodes Fac (GetNode Frt # rs) =
     (case getNode Fac Frt of None \<Rightarrow> None | Some (N, Fac') \<Rightarrow> getNodes Fac' rs)"
| "getNodes Fac (GetNodePP Frt PP # rs) = getNodes (snd (getNodePP Fac Frt PP)) rs"

definition emptyFactory :: "'pp UCTNodeFactory" where
  "emptyFactory = \<lparr> FrontierToNodeMap = [], Nodes = [], Frontiers = [] \<rparr>"

section \<open>The search loop\<close>

text \<open>
  \<open>UCTSearch::run\<close>. One iteration of the loop (selection, expansion, evaluation and
  backpropagation) is a step \<open>iteration\<close> on the state of the search; \<open>expanded\<close> and
  \<open>numTransitions\<close> read the root node in that state. The loop
  \<open>for (Iter = 0; Iter < NumIters; Iter++)\<close> returns the final \<open>Iter\<close>, the number of
  iterations it has run, with the state.
\<close>

function runLoop :: "('s \<Rightarrow> 's) \<Rightarrow> nat \<Rightarrow> nat \<Rightarrow> 's \<Rightarrow> nat \<times> 's" where
  "runLoop iteration Iter NumIters st =
     (if Iter < NumIters then runLoop iteration (Suc Iter) NumIters (iteration st)
      else (Iter, st))"
  by pat_completeness auto
termination
  by (relation "measure (\<lambda>(iteration, Iter, NumIters, st). NumIters - Iter)") auto

declare runLoop.simps [simp del]

definition run ::
  "('s \<Rightarrow> bool) \<Rightarrow> ('s \<Rightarrow> nat) \<Rightarrow> ('s \<Rightarrow> 's) \<Rightarrow> nat \<Rightarrow> 's \<Rightarrow> nat \<times> 's" where
  "run expanded numTransitions iteration NumIters st =
     (let NumIters' = (if expanded st \<and> numTransitions st = 1 then 1 else NumIters)
      in runLoop iteration 0 NumIters' st)"

section \<open>The heuristic\<close>

text \<open>
  \<open>Heuristic::solve\<close> and the two \<open>getCost\<close> functions. The packer gives the scalar cost
  of an instruction and the producers of an operand pack; the context gives the
  de-duplicated operand pack. The two memo tables are not modelled: each function
  depends on its argument only. The recursion of the source need not end (a phi of a
  loop that is one block uses itself through its operands), so the functions take
  fuel: \<open>None\<close> is a call that does not return within it.
\<close>

record OperandProducerInfo =
  getProducers :: "vpack list"
  opiElements :: "nat set"

record heuristic =
  getScalarCost :: "inst \<Rightarrow> real"
  dedup :: "opack \<Rightarrow> opack"
  getProducerInfo :: "opack \<Rightarrow> OperandProducerInfo"
  Candidates :: "vpack list option"

record Solution =
  solCost :: real
  solPacks :: "vpack list"

definition C_Splat :: real where "C_Splat = 1"
definition C_Insert :: real where "C_Insert = 2"
definition C_Perm :: real where "C_Perm = 0.5"
definition C_Shuffle :: real where "C_Shuffle = 0.5"

text \<open>Modelled from the spec: \<open>Solution::update\<close>, declared outside the sources, keeps the
  minimum.\<close>

definition Solution_update :: "Solution \<Rightarrow> Solution \<Rightarrow> Solution" where
  "Solution_update Sol New = (if solCost New < solCost Sol then New else Sol)"

fun sumOptions :: "real option list \<Rightarrow> real option" where
  "sumOptions [] = Some 0"
| "sumOptions (None # cs) = None"
| "sumOptions (Some c # cs) = map_option ((+) c) (sumOptions cs)"

text \<open>\<open>Heuristic::getCost(Value *)\<close>.\<close>

fun getCostValue :: "nat \<Rightarrow> ir \<Rightarrow> ('a heuristic_scheme) \<Rightarrow> val option \<Rightarrow> real option" where
  "getCostValue n bb H None = Some 0"
| "getCostValue n bb H (Some (Const c)) = Some 0"
| "getCostValue n bb H (Some (Arg a)) = Some 0"
| "getCostValue 0 bb H (Some (Instr I)) = (if \<not> inBB bb I then Some 0 else None)"
| "getCostValue (Suc n) bb H (Some (Instr I)) =
     (if \<not> inBB bb I then Some 0
      else map_option ((+) (getScalarCost H I))
             (sumOptions (map (\<lambda>V. getCostValue n bb H (Some V)) (operands bb I))))"

text \<open>The first loop of \<open>solve\<close>, building the vector by explicit insertion; the state is
  the cost and the set \<open>Inserted\<close>.\<close>

fun insertionCost ::
  "nat \<Rightarrow> ir \<Rightarrow> ('a heuristic_scheme) \<Rightarrow> opack \<Rightarrow> val set \<Rightarrow> real option" where
  "insertionCost n bb H [] Inserted = Some 0"
| "insertionCost n bb H (V # Vs) Inserted =
     (case V of
        Some v \<Rightarrow>
          (if \<not> isConstantLane V \<and> v \<notin> Inserted
           then (case getCostValue n bb H V of
                   None \<Rightarrow> None
                 | Some c \<Rightarrow> map_option ((+) (c + C_Insert))
                               (insertionCost n bb H Vs (insert v Inserted)))
           else insertionCost n bb H Vs Inserted)
      | None \<Rightarrow> insertionCost n bb H Vs Inserted)"

text \<open>\<open>Inst2Packs\<close>, as \<open>optimizeBottomUp\<close> fills it from the candidate packs.\<close>

definition Inst2Packs :: "vpack list \<Rightarrow> nat \<Rightarrow> vpack list" where
  "Inst2Packs Packs i = filter (\<lambda>VP. i \<in> getElements VP) Packs"

definition set_bits :: "ir \<Rightarrow> nat set \<Rightarrow> nat list" where
  "set_bits bb Bits = filter (\<lambda>i. i \<in> Bits) [0 ..< getNumValues bb]"

text \<open>The body of the loop over the candidate packs of one instruction; \<open>c\<close> is
  \<open>getCost(VP)\<close>.\<close>

definition candidateSolution ::
  "opack \<Rightarrow> OperandProducerInfo \<Rightarrow> real \<Rightarrow> vpack \<Rightarrow> real \<Rightarrow> Solution" where
  "candidateSolution OP OPI ExtraCost VP c =
     (let Vals = getOrderedValues VP
      in if length Vals = card (opiElements OPI) \<and> is_permutation Vals (take (length Vals) OP)
         then \<lparr> solCost = c + C_Perm + ExtraCost, solPacks = [VP] \<rparr>
         else let Discount = real (card (opiElements OPI))
                               / real (card (opiElements OPI \<inter> getElements VP))
              in \<lparr> solCost = c * Discount + C_Shuffle + ExtraCost, solPacks = [VP] \<rparr>)"

text \<open>
  The loops of \<open>solve\<close> take the cost of a pack, \<open>getCost(const VectorPack *)\<close>, as the
  function \<open>cost\<close>; \<open>solve\<close> below ties the knot.
\<close>

fun producerLoop ::
  "(vpack \<Rightarrow> real option) \<Rightarrow> real \<Rightarrow> vpack list \<Rightarrow> Solution \<Rightarrow> Solution option" where
  "producerLoop cost ExtraCost [] Sol = Some Sol"
| "producerLoop cost ExtraCost (VP # VPs) Sol =
     (case cost VP of
        None \<Rightarrow> None
      | Some c \<Rightarrow> producerLoop cost ExtraCost VPs
                    (Solution_update Sol \<lparr> solCost = c + ExtraCost, solPacks = [VP] \<rparr>))"

fun candidatePacksLoop ::
  "(vpack \<Rightarrow> real option) \<Rightarrow> opack \<Rightarrow> OperandProducerInfo \<Rightarrow> real \<Rightarrow> vpack list
     \<Rightarrow> Solution \<times> vpack set \<Rightarrow> (Solution \<times> vpack set) option" where
  "candidatePacksLoop cost OP OPI ExtraCost [] st = Some st"
| "candidatePacksLoop cost OP OPI ExtraCost (VP # VPs) (Sol, Visited) =
     (if VP \<in> Visited \<or> \<not> isLoad VP
      then candidatePacksLoop cost OP OPI ExtraCost VPs (Sol, insert VP Visited)
      else (case cost VP of
              None \<Rightarrow> None
            | Some c \<Rightarrow> candidatePacksLoop cost OP OPI ExtraCost VPs
                          (Solution_update Sol (candidateSolution OP OPI ExtraCost VP c),
                           insert VP Visited)))"

fun candidateLoop ::
  "(vpack \<Rightarrow> real option) \<Rightarrow> vpack list \<Rightarrow> opack \<Rightarrow> OperandProducerInfo \<Rightarrow> real \<Rightarrow> nat list
     \<Rightarrow> Solution \<times> vpack set \<Rightarrow> (Solution \<times> vpack set) option" where
  "candidateLoop cost Packs OP OPI ExtraCost [] st = Some st"
| "candidateLoop cost Packs OP OPI ExtraCost (InstId # Ids) st =
     (case candidatePacksLoop cost OP OPI ExtraCost (Inst2Packs Packs InstId) st of
        None \<Rightarrow> None
      | Some st' \<Rightarrow> candidateLoop cost Packs OP OPI ExtraCost Ids st')"

definition packCost :: "(opack \<Rightarrow> Solution option) \<Rightarrow> vpack \<Rightarrow> real option" where
  "packCost slv VP =
     map_option ((+) (getProducingCost VP))
       (sumOptions (map (\<lambda>OP. map_option solCost (slv OP)) (getOperandPacks VP)))"

fun solve :: "nat \<Rightarrow> ir \<Rightarrow> heuristic \<Rightarrow> opack \<Rightarrow> Solution option" where
  "solve 0 bb H OP = None"
| "solve (Suc n) bb H OP =
     (case insertionCost n bb H OP {} of
        None \<Rightarrow> None
      | Some Cost \<Rightarrow>
          if Cost = 0 then Some \<lparr> solCost = Cost, solPacks = [] \<rparr>
          else
           (case getCostValue n bb H (hd OP) of
              None \<Rightarrow> None
            | Some c0 \<Rightarrow>
               (let BroadcastCost = c0 + C_Splat;
                    Sol = (if is_splat OP \<and> Cost > BroadcastCost
                           then \<lparr> solCost = BroadcastCost, solPacks = [] \<rparr>
                           else \<lparr> solCost = Cost, solPacks = [] \<rparr>);
                    Deduped = dedup H OP;
                    ExtraCost = (if Deduped \<noteq> OP then C_Shuffle else 0);
                    OPI = getProducerInfo H Deduped
                in case producerLoop (packCost (solve n bb H)) ExtraCost (getProducers OPI) Sol of
                     None \<Rightarrow> None
                   | Some Sol1 \<Rightarrow>
                      (case Candidates H of
                         None \<Rightarrow> Some Sol1
                       | Some Packs \<Rightarrow>
                           map_option fst
                             (candidateLoop (packCost (solve n bb H)) Packs OP OPI ExtraCost
                                (set_bits bb (opiElements OPI)) (Sol1, {}))))))"

definition getCostVP :: "nat \<Rightarrow> ir \<Rightarrow> heuristic \<Rightarrow> vpack \<Rightarrow> real option" where
  "getCostVP n bb H VP = packCost (solve n bb H) VP"

section \<open>The bottom-up optimizer over frontiers\<close>

subsection \<open>Seed store packs\<close>

text \<open>The recursive lambda \<open>Enumerate\<close> of \<open>getSeedStorePacks\<close>; as in \<open>getSeedMemPacks\<close>,
  with the test that the next store is usable in the frontier.\<close>

function EnumerateStores ::
  "packer \<Rightarrow> frontier \<Rightarrow> nat \<Rightarrow> inst list \<Rightarrow> nat set \<Rightarrow> nat set \<Rightarrow> vpack list" where
  "EnumerateStores Pkr Frt VL Stores Elements Depended =
     (if length Stores = VL then [createStorePack Pkr Stores Elements Depended]
      else if VL < length Stores then []
      else concat (map (\<lambda>NextSI.
             if \<not> isUsable Frt NextSI then []
             else if \<not> checkIndependence Pkr NextSI Elements Depended then []
             else EnumerateStores Pkr Frt VL (Stores @ [NextSI]) (insert NextSI Elements)
                    (Depended \<union> LDA_getDepended Pkr NextSI))
           (getStoreDAG Pkr (last Stores))))"
  by pat_completeness auto
termination
  by (relation "measure (\<lambda>(Pkr, Frt, VL, Stores, Elements, Depended). VL - length Stores)")
     auto

declare EnumerateStores.simps [simp del]

definition getSeedStorePacks :: "packer \<Rightarrow> frontier \<Rightarrow> inst \<Rightarrow> nat \<Rightarrow> vpack list" where
  "getSeedStorePacks Pkr Frt SI VL =
     (if \<not> isUsable Frt SI then []
      else EnumerateStores Pkr Frt VL [SI] {SI} (LDA_getDepended Pkr SI))"

definition getSeedStorePack :: "packer \<Rightarrow> frontier \<Rightarrow> inst \<Rightarrow> nat \<Rightarrow> vpack option" where
  "getSeedStorePack Pkr Frt SI VL =
     (case getSeedStorePacks Pkr Frt SI VL of [] \<Rightarrow> None | Seed # Seeds \<Rightarrow> Some Seed)"

subsection \<open>Extension packs and the all-scalar estimate\<close>

text \<open>The inner loop of \<open>estimateAllScalarCost\<close> over the lanes of \<open>OP\<close>, from lane \<open>i\<close> on.\<close>

fun scalarCostLanes :: "ir \<Rightarrow> tti \<Rightarrow> frontier \<Rightarrow> vty \<Rightarrow> opack \<Rightarrow> nat \<Rightarrow> opack \<Rightarrow> nat" where
  "scalarCostLanes bb T Frt VecTy OP i [] = 0"
| "scalarCostLanes bb T Frt VecTy OP i (V # Vs) =
     (if \<not> isFreeLane bb Frt V then scalarCostLanes bb T Frt VecTy OP (Suc i) Vs
      else if i = 0 \<and> is_splat OP then getBroadcastCost T VecTy
      else 2 * getInsertElementCost T VecTy i + scalarCostLanes bb T Frt VecTy OP (Suc i) Vs)"

fun estimatePacks :: "ir \<Rightarrow> tti \<Rightarrow> frontier \<Rightarrow> opack list \<Rightarrow> nat option" where
  "estimatePacks bb T Frt [] = Some 0"
| "estimatePacks bb T Frt (OP # OPs) =
     (case getVectorTypeOP bb OP of
        None \<Rightarrow> None
      | Some VecTy \<Rightarrow> map_option ((+) (scalarCostLanes bb T Frt VecTy OP 0 OP))
                       (estimatePacks bb T Frt OPs))"

definition estimateAllScalarCost :: "ir \<Rightarrow> tti \<Rightarrow> frontier \<Rightarrow> nat option" where
  "estimateAllScalarCost bb T Frt = estimatePacks bb T Frt (UnresolvedPacks Frt)"

text \<open>
  \<open>findExtensionPacks2\<close>. The body of its loop over the unresolved packs reads the match
  manager, the catalog of vector instructions and the load DAG; it is the function
  \<open>extendOperandPack\<close> of the packer, which yields the general packs and the load pack (if
  any) the body appends to \<open>Extensions\<close> and \<open>LoadExtensions\<close>. The loop is left as soon as
  \<open>Extensions\<close> is not empty.
\<close>

fun extensionLoop ::
  "packer \<Rightarrow> frontier \<Rightarrow> opack list \<Rightarrow> vpack list \<times> vpack list \<Rightarrow> vpack list \<times> vpack list" where
  "extensionLoop Pkr Frt [] st = st"
| "extensionLoop Pkr Frt (OP # OPs) (Extensions, LoadExtensions) =
     (if Extensions \<noteq> [] then (Extensions, LoadExtensions)
      else let (Exts, LoadVP) = extendOperandPack Pkr Frt OP
           in extensionLoop Pkr Frt OPs
                (Extensions @ Exts,
                 LoadExtensions @ (case LoadVP of None \<Rightarrow> [] | Some VP \<Rightarrow> [VP])))"

definition findExtensionPacks2 :: "packer \<Rightarrow> frontier \<Rightarrow> vpack list" where
  "findExtensionPacks2 Pkr Frt =
     (let (Extensions, LoadExtensions) = extensionLoop Pkr Frt (UnresolvedPacks Frt) ([], [])
      in if Extensions \<noteq> [] then Extensions
         else (case LoadExtensions of
                 [] \<Rightarrow> []
               | LoadVP # Others \<Rightarrow>
                   (case tryCoalesceLoads Pkr LoadVP Others of
                      Some Coalesced \<Rightarrow> [Coalesced, LoadVP]
                    | None \<Rightarrow> [LoadVP])))"

subsection \<open>The memoizing solver \<open>DPSolver\<close>\<close>

record DPSolution =
  dpCost :: real
  dpVP :: "vpack option"

text \<open>\<open>Solutions\<close>, a hash map keyed by frontiers compared with \<open>isEqual\<close>, as the list of
  its entries.\<close>

type_synonym memo = "(frontier \<times> DPSolution) list"

definition lookupSolution :: "memo \<Rightarrow> frontier \<Rightarrow> DPSolution option" where
  "lookupSolution M Frt = map_option snd (List.find (\<lambda>(K, S). isEqual K Frt) M)"

definition storeSolution :: "memo \<Rightarrow> frontier \<Rightarrow> DPSolution \<Rightarrow> memo" where
  "storeSolution M Frt Sol =
     (if lookupSolution M Frt = None then M @ [(Frt, Sol)]
      else map (\<lambda>(K, S). if isEqual K Frt then (K, Sol) else (K, S)) M)"

text \<open>The loop of \<open>solveImpl\<close> over the extensions; \<open>slv\<close> is the recursive call of
  \<open>solve\<close>.\<close>

fun solveExtensions ::
  "(memo \<Rightarrow> frontier \<Rightarrow> (DPSolution \<times> memo) option) \<Rightarrow> ir \<Rightarrow> tti \<Rightarrow> frontier \<Rightarrow> vpack list
     \<Rightarrow> DPSolution \<times> memo \<Rightarrow> (DPSolution \<times> memo) option" where
  "solveExtensions slv bb T Frt [] st = Some st"
| "solveExtensions slv bb T Frt (ExtVP # Exts) (Sol, M) =
     (case advanceInplace_pack bb T Frt ExtVP of
        None \<Rightarrow> None
      | Some (LocalCost, NextFrt) \<Rightarrow>
         (case slv M NextFrt of
            None \<Rightarrow> None
          | Some (Sub, M') \<Rightarrow>
              (let TotalCost = dpCost Sub + LocalCost
               in solveExtensions slv bb T Frt Exts
                    (if dpCost Sol > TotalCost
                     then \<lparr> dpCost = TotalCost, dpVP = Some ExtVP \<rparr> else Sol, M'))))"

text \<open>\<open>DPSolver::solve\<close> with \<open>solveImpl\<close> inlined. The recursion follows the extension
  packs and takes fuel; \<open>None\<close> is a call that does not return within it, or a failed
  assertion.\<close>

fun DPSolver_solve ::
  "nat \<Rightarrow> ir \<Rightarrow> tti \<Rightarrow> packer \<Rightarrow> memo \<Rightarrow> frontier \<Rightarrow> (DPSolution \<times> memo) option" where
  "DPSolver_solve 0 bb T Pkr M Frt = None"
| "DPSolver_solve (Suc n) bb T Pkr M Frt =
     (case lookupSolution M Frt of
        Some Sol \<Rightarrow> Some (Sol, M)
      | None \<Rightarrow>
         (case estimateAllScalarCost bb T Frt of
            None \<Rightarrow> None
          | Some Scalar \<Rightarrow>
             (case solveExtensions (DPSolver_solve n bb T Pkr) bb T Frt
                     (findExtensionPacks2 Pkr Frt) (\<lparr> dpCost = real Scalar, dpVP = None \<rparr>, M) of
                None \<Rightarrow> None
              | Some (Sol, M') \<Rightarrow> Some (Sol, storeSolution M' Frt Sol))))"

subsection \<open>\<open>optimizeBottomUp\<close>\<close>

text \<open>
  The local variables of \<open>optimizeBottomUp\<close>. \<open>Packs\<close> is the \<open>VectorPackSet\<close> of the caller,
  of a type \<open>'ps\<close>, written only by its method \<open>tryAdd\<close>.
\<close>

record 'ps bottomUp =
  buFrt :: frontier
  buCost :: real
  buBestEst :: real
  buPacks :: 'ps
  buSolver :: memo

text \<open>The loop that commits the extension the solver proposes, until it proposes none
  (it is written twice in the source, as a \<open>while\<close> and as a \<open>for (;;)\<close>).\<close>

fun extendLoop ::
  "nat \<Rightarrow> nat \<Rightarrow> ir \<Rightarrow> tti \<Rightarrow> packer \<Rightarrow> ('ps \<Rightarrow> vpack \<Rightarrow> 'ps) \<Rightarrow> 'ps bottomUp
     \<Rightarrow> 'ps bottomUp option" where
  "extendLoop n fuel bb T Pkr tryAdd st =
     (case DPSolver_solve fuel bb T Pkr (buSolver st) (buFrt st) of
        None \<Rightarrow> None
      | Some (Sol, M) \<Rightarrow>
         (case dpVP Sol of
            None \<Rightarrow> Some (st\<lparr> buSolver := M \<rparr>)
          | Some ExtVP \<Rightarrow>
             (case n of
                0 \<Rightarrow> None
              | Suc m \<Rightarrow>
                 (case advanceInplace_pack bb T (buFrt st) ExtVP of
                    None \<Rightarrow> None
                  | Some (c, Frt') \<Rightarrow>
                      extendLoop m fuel bb T Pkr tryAdd
                        (st\<lparr> buFrt := Frt', buCost := buCost st + c,
                             buPacks := tryAdd (buPacks st) ExtVP, buSolver := M \<rparr>)))))"

text \<open>The body of the two nested loops over the lane counts and the stores.\<close>

definition seedStep ::
  "nat \<Rightarrow> ir \<Rightarrow> tti \<Rightarrow> packer \<Rightarrow> ('ps \<Rightarrow> vpack \<Rightarrow> 'ps) \<Rightarrow> nat \<Rightarrow> inst \<Rightarrow> 'ps bottomUp
     \<Rightarrow> 'ps bottomUp option" where
  "seedStep fuel bb T Pkr tryAdd VL SI st =
     (case getSeedStorePack Pkr (buFrt st) SI VL of
        None \<Rightarrow> Some st
      | Some SeedVP \<Rightarrow>
         (case advanceInplace_pack bb T (buFrt st) SeedVP of
            None \<Rightarrow> None
          | Some (LocalCost, NextFrt) \<Rightarrow>
             (case DPSolver_solve fuel bb T Pkr (buSolver st) NextFrt of
                None \<Rightarrow> None
              | Some (Sol, M) \<Rightarrow>
                 (if LocalCost + dpCost Sol < buBestEst st
                  then (case extendLoop fuel fuel bb T Pkr tryAdd
                               (st\<lparr> buFrt := NextFrt, buCost := buCost st + LocalCost,
                                    buPacks := tryAdd (buPacks st) SeedVP, buSolver := M \<rparr>) of
                          None \<Rightarrow> None
                        | Some st' \<Rightarrow>
                           (case estimateAllScalarCost bb T (buFrt st') of
                              None \<Rightarrow> None
                            | Some Scalar \<Rightarrow> Some (st'\<lparr> buBestEst := real Scalar \<rparr>)))
                  else Some (st\<lparr> buSolver := M \<rparr>)))))"

fun storeLoop ::
  "nat \<Rightarrow> ir \<Rightarrow> tti \<Rightarrow> packer \<Rightarrow> ('ps \<Rightarrow> vpack \<Rightarrow> 'ps) \<Rightarrow> nat \<Rightarrow> inst list \<Rightarrow> 'ps bottomUp
     \<Rightarrow> 'ps bottomUp option" where
  "storeLoop fuel bb T Pkr tryAdd VL [] st = Some st"
| "storeLoop fuel bb T Pkr tryAdd VL (SI # Stores) st =
     (case seedStep fuel bb T Pkr tryAdd VL SI st of
        None \<Rightarrow> None
      | Some st' \<Rightarrow> storeLoop fuel bb T Pkr tryAdd VL Stores st')"

fun laneLoop ::
  "nat \<Rightarrow> ir \<Rightarrow> tti \<Rightarrow> packer \<Rightarrow> ('ps \<Rightarrow> vpack \<Rightarrow> 'ps) \<Rightarrow> nat list \<Rightarrow> inst list \<Rightarrow> 'ps bottomUp
     \<Rightarrow> 'ps bottomUp option" where
  "laneLoop fuel bb T Pkr tryAdd [] Stores st = Some st"
| "laneLoop fuel bb T Pkr tryAdd (VL # VLs) Stores st =
     (case storeLoop fuel bb T Pkr tryAdd VL Stores st of
        None \<Rightarrow> None
      | Some st' \<Rightarrow> laneLoop fuel bb T Pkr tryAdd VLs Stores st')"

text \<open>\<open>usableInsts()\<close> lists the usable instructions by increasing scalar id; the loop
  body takes the first.\<close>

definition firstUsable :: "ir \<Rightarrow> frontier \<Rightarrow> inst option" where
  "firstUsable bb Frt = List.find (\<lambda>i. i \<in> UsableInsts Frt) [0 ..< getNumValues bb]"

text \<open>The last loop: scalarize until no unresolved scalar and no unresolved pack is
  left. \<open>None\<close>: the loop does not end within \<open>n\<close> rounds, or an assertion fails.\<close>

fun scalarizeAll :: "nat \<Rightarrow> ir \<Rightarrow> tti \<Rightarrow> frontier \<Rightarrow> real \<Rightarrow> (frontier \<times> real) option" where
  "scalarizeAll n bb T Frt Cost =
     (if UnresolvedScalars Frt \<noteq> {} \<or> UnresolvedPacks Frt \<noteq> []
      then (case n of
              0 \<Rightarrow> None
            | Suc m \<Rightarrow>
               (case firstUsable bb Frt of
                  None \<Rightarrow> scalarizeAll m bb T Frt Cost
                | Some I \<Rightarrow>
                   (case advanceInplace_inst bb T Frt I of
                      None \<Rightarrow> None
                    | Some (c, Frt') \<Rightarrow> scalarizeAll m bb T Frt' (Cost + c))))
      else Some (Frt, Cost))"

text \<open>
  \<open>Stores\<close> is the vector of that name after the sort: the keys of the store DAG by
  decreasing chain length, ties in the order the library leaves them.
\<close>

definition optimizeBottomUp ::
  "nat \<Rightarrow> ir \<Rightarrow> tti \<Rightarrow> packer \<Rightarrow> ('ps \<Rightarrow> vpack \<Rightarrow> 'ps) \<Rightarrow> inst list \<Rightarrow> 'ps \<Rightarrow> (real \<times> 'ps) option" where
  "optimizeBottomUp fuel bb T Pkr tryAdd Stores Packs =
     (case laneLoop fuel bb T Pkr tryAdd [64, 32, 16, 8, 4, 2] Stores
             \<lparr> buFrt = Frontier bb, buCost = 0, buBestEst = 0, buPacks = Packs, buSolver = [] \<rparr> of
        None \<Rightarrow> None
      | Some st1 \<Rightarrow>
         (case extendLoop fuel fuel bb T Pkr tryAdd st1 of
            None \<Rightarrow> None
          | Some st2 \<Rightarrow>
             (case scalarizeAll fuel bb T (buFrt st2) (buCost st2) of
                None \<Rightarrow> None
              | Some (Frt, Cost) \<Rightarrow> Some (Cost, buPacks st2))))"

section \<open>Notions used in the statements and proofs\<close>

text \<open>The indices, counted from \<open>i\<close>, of the elements of a list that satisfy \<open>P\<close>.\<close>

fun flaggedIds :: "('a \<Rightarrow> bool) \<Rightarrow> nat \<Rightarrow> 'a list \<Rightarrow> nat list" where
  "flaggedIds P i [] = []"
| "flaggedIds P i (x # xs) = (if P x then i # flaggedIds P (Suc i) xs else flaggedIds P (Suc i) xs)"

text \<open>What committing the pack \<open>VP\<close> charges for gathering the unresolved pack \<open>OP\<close>.\<close>

definition gatherCharge :: "ir \<Rightarrow> tti \<Rightarrow> vpack \<Rightarrow> opack \<Rightarrow> nat" where
  "gatherCharge bb T VP OP =
     (if resolveOperandPack bb VP OP
      then (if getOrderedValues VP = OP then 0
            else if length (getOrderedValues VP) = length OP \<and> mset (getOrderedValues VP) = mset OP
              then getPermuteSingleSrcCost T (the (getVectorTypeVP bb VP))
            else 2)
      else 0)"

text \<open>A store yields no value: it has no user and is an operand of no instruction.\<close>

definition storesUnused :: "ir \<Rightarrow> bool" where
  "storesUnused bb =
     (\<forall>I. isStoreInst bb I \<longrightarrow> users bb I = [] \<and> (\<forall>J. Instr I \<notin> set (operands bb J)))"

text \<open>Every node the map points to exists and has no partial pack; the frontier \<open>F\<close> owns
  the node \<open>N\<close> when the map sends it there.\<close>

definition wfFactory :: "'pp UCTNodeFactory \<Rightarrow> bool" where
  "wfFactory Fac =
     (\<forall>(K, N) \<in> set (FrontierToNodeMap Fac).
        N < length (Nodes Fac) \<and> getPartialPack (Nodes Fac ! N) = None)"

definition ownsNode :: "'pp UCTNodeFactory \<Rightarrow> frontier \<Rightarrow> nat \<Rightarrow> bool" where
  "ownsNode Fac F N = (\<exists>K. findNode (FrontierToNodeMap Fac) F = Some (K, N))"

text \<open>The chain \<open>xs\<close> of \<open>VL\<close> accesses extends the chain \<open>acc\<close>: \<open>acc\<close> is a prefix of it, each
  later access is a successor of the one before it in the DAG and is independent of all
  the accesses before it.\<close>

definition extendsChain :: "packer \<Rightarrow> bool \<Rightarrow> nat \<Rightarrow> inst list \<Rightarrow> inst list \<Rightarrow> bool" where
  "extendsChain Pkr IsStore VL acc xs =
     (length xs = VL \<and> take (length acc) xs = acc \<and>
      (\<forall>i. length acc \<le> i \<and> i < VL \<longrightarrow>
           xs ! i \<in> set (AccessDAG Pkr IsStore (xs ! (i - 1))) \<and>
           (\<forall>j < i. independent Pkr (xs ! j) (xs ! i))))"

text \<open>Two runs of \<open>solve\<close> compared: both fail to return within the fuel, or both return and
  the first returns the lower cost.\<close>

definition costLe :: "Solution option \<Rightarrow> Solution option \<Rightarrow> bool" where
  "costLe R' R = rel_option (\<lambda>S' S. solCost S' \<le> solCost S) R' R"

text \<open>What \<open>solve\<close> offers for the candidate load pack \<open>VP\<close> (a load pack has no operand
  packs, so its cost is its producing cost), and the candidate packs the loop over the
  instructions \<open>Ids\<close> visits.\<close>

definition candCost :: "opack \<Rightarrow> OperandProducerInfo \<Rightarrow> real \<Rightarrow> vpack \<Rightarrow> real" where
  "candCost OP OPI E VP = solCost (candidateSolution OP OPI E VP (getProducingCost VP))"

definition visitedPacks :: "vpack list \<Rightarrow> nat list \<Rightarrow> vpack set" where
  "visitedPacks Packs Ids = (\<Union>i \<in> set Ids. set (Inst2Packs Packs i))"

text \<open>
  What the IR guarantees of a block: the scalar ids of its instructions are below
  \<open>getNumValues\<close>; a user of an instruction has it among its operands; and a user in the
  block that is not a phi node comes later in the block than the instruction it uses.
\<close>

definition wellFormed :: "ir \<Rightarrow> bool" where
  "wellFormed bb =
     ((\<forall>i \<in> set (block bb). i < getNumValues bb) \<and>
      (\<forall>k < length (block bb). \<forall>V \<in> set (users bb (block bb ! k)).
         case V of
           Instr U \<Rightarrow>
             (inBB bb U \<longrightarrow> Instr (block bb ! k) \<in> set (operands bb U)) \<and>
             (\<forall>m < length (block bb). block bb ! m = U \<and> \<not> isPHINode bb U \<longrightarrow> k < m)
         | _ \<Rightarrow> True))"

text \<open>
  The invariant of the last loop of \<open>optimizeBottomUp\<close> when no pack is pending: the usable
  instructions and the unresolved scalars are free instructions of the block, and a free
  instruction of the block that is a phi node or has no free user in the block is usable.
\<close>

definition scalarInv :: "ir \<Rightarrow> frontier \<Rightarrow> bool" where
  "scalarInv bb F =
     (UnresolvedPacks F = [] \<and>
      UsableInsts F \<subseteq> FreeInsts F \<inter> set (block bb) \<and>
      UnresolvedScalars F \<subseteq> FreeInsts F \<inter> set (block bb) \<and>
      (\<forall>J \<in> FreeInsts F \<inter> set (block bb).
          isPHINode bb J \<or> \<not> list_ex (isFreeUserInBB bb (FreeInsts F)) (users bb J)
            \<longrightarrow> J \<in> UsableInsts F))"

section \<open>A block of two stores\<close>

text \<open>
  The block \<open>%0 = load; %1 = load; store %0; store %1\<close>, where \<open>%1\<close> is also used by the
  instruction \<open>7\<close> of another block; the store pack of the two stores, whose operand pack
  is \<open>(%0, %1)\<close>; the load pack \<open>(%1, %0)\<close>; and the frontiers after committing the store
  pack (\<open>exF1\<close>), after scalarizing \<open>%0\<close> next (\<open>exF2\<close>), or after committing the load pack
  instead (\<open>exF3\<close>). Every target cost is one.
\<close>

definition exBB :: ir where
  "exBB = \<lparr> block = [0, 1, 2, 3],
            operands = (\<lambda>i. if i = 2 then [Instr 0, Arg 0] else if i = 3 then [Instr 1, Arg 1] else [Arg 2]),
            users = (\<lambda>i. if i = 0 then [Instr 2] else if i = 1 then [Instr 3, Instr 7] else []),
            isPHINode = (\<lambda>i. False),
            isStoreInst = (\<lambda>i. i = 2 \<or> i = 3),
            isLoadInst = (\<lambda>i. i = 0 \<or> i = 1),
            getType = (\<lambda>v. 0),
            getNumValues = 4,
            addrOf = length,
            presetTy = (\<lambda>OP. None) \<rparr>"

definition exTTI :: tti where
  "exTTI = \<lparr> getBroadcastCost = (\<lambda>t. 1), getPermuteSingleSrcCost = (\<lambda>t. 1),
             getInsertElementCost = (\<lambda>t i. 1), getExtractElementCost = (\<lambda>t i. 1) \<rparr>"

definition exStorePack :: vpack where
  "exStorePack = \<lparr> getKind = Store, getOrderedValues = [Some (Instr 2), Some (Instr 3)],
                   getElements = {2, 3}, getDepended = {0, 1}, getIntermediateInsts = [],
                   getOperandPacks = [[Some (Instr 0), Some (Instr 1)]], getCost = 1,
                   getProducingCost = 1 \<rparr>"

definition exLoadPack :: vpack where
  "exLoadPack = \<lparr> getKind = Load, getOrderedValues = [Some (Instr 1), Some (Instr 0)],
                  getElements = {0, 1}, getDepended = {}, getIntermediateInsts = [],
                  getOperandPacks = [], getCost = 1, getProducingCost = 1 \<rparr>"

definition exOP :: opack where
  "exOP = [Some (Instr 0), Some (Instr 1)]"

definition exF1 :: frontier where
  "exF1 = \<lparr> BBIt = 2, UnresolvedScalars = {1}, FreeInsts = {0, 1}, UsableInsts = {0, 1},
            UnresolvedPacks = [exOP] \<rparr>"

definition exF2 :: frontier where
  "exF2 = \<lparr> BBIt = 2, UnresolvedScalars = {1}, FreeInsts = {1}, UsableInsts = {1},
            UnresolvedPacks = [exOP] \<rparr>"

definition exF3 :: frontier where
  "exF3 = \<lparr> BBIt = 4, UnresolvedScalars = {}, FreeInsts = {}, UsableInsts = {},
            UnresolvedPacks = [] \<rparr>"

text \<open>A frontier that differs from \<open>exF1\<close> in its usable instructions only.\<close>

definition exF1u :: frontier where
  "exF1u = exF1\<lparr> UsableInsts := {} \<rparr>"

section \<open>A block with a general pack\<close>

text \<open>
  The block \<open>%0; %1; store %0; store %1; %4 = f %0; %5 = f %1; store %4; store %5\<close>. Its
  packs: the two store packs, with the operand packs \<open>(%0, %1)\<close> and \<open>(%4, %5)\<close>, and a
  general pack that produces \<open>(%4, %5)\<close>, whose matches cover \<open>%0\<close> and \<open>%1\<close> too and whose
  one operand pack is two don't-care lanes (its type is preset). An operand pack lies at
  the address that is the number of its first lane. The frontiers: after the commit of
  the upper store pack (\<open>exG1\<close>), then of the lower store pack (\<open>exG2\<close>), then of the
  general pack (\<open>exG3\<close>).
\<close>

definition exGenBB :: ir where
  "exGenBB = \<lparr> block = [0, 1, 2, 3, 4, 5, 6, 7],
            operands = (\<lambda>i. if i = 2 then [Instr 0, Arg 0] else if i = 3 then [Instr 1, Arg 1]
                         else if i = 4 then [Instr 0] else if i = 5 then [Instr 1]
                         else if i = 6 then [Instr 4, Arg 2] else if i = 7 then [Instr 5, Arg 3]
                         else [Arg 4]),
            users = (\<lambda>i. if i = 0 then [Instr 2, Instr 4] else if i = 1 then [Instr 3, Instr 5]
                      else if i = 4 then [Instr 6] else if i = 5 then [Instr 7] else []),
            isPHINode = (\<lambda>i. False),
            isStoreInst = (\<lambda>i. i = 2 \<or> i = 3 \<or> i = 6 \<or> i = 7),
            isLoadInst = (\<lambda>i. False),
            getType = (\<lambda>v. 0),
            getNumValues = 8,
            addrOf = (\<lambda>OP. case OP of Some (Instr i) # Vs \<Rightarrow> i | _ \<Rightarrow> 0),
            presetTy = (\<lambda>OP. if OP = [None, None] then Some (1, 2) else None) \<rparr>"

definition exOPHi :: opack where
  "exOPHi = [Some (Instr 4), Some (Instr 5)]"

definition exStoreHi :: vpack where
  "exStoreHi = \<lparr> getKind = Store, getOrderedValues = [Some (Instr 6), Some (Instr 7)],
                 getElements = {6, 7}, getDepended = {}, getIntermediateInsts = [],
                 getOperandPacks = [exOPHi], getCost = 1, getProducingCost = 1 \<rparr>"

definition exStoreLo :: vpack where
  "exStoreLo = \<lparr> getKind = Store, getOrderedValues = [Some (Instr 2), Some (Instr 3)],
                 getElements = {2, 3}, getDepended = {}, getIntermediateInsts = [],
                 getOperandPacks = [exOP], getCost = 1, getProducingCost = 1 \<rparr>"

definition exGenPack :: vpack where
  "exGenPack = \<lparr> getKind = General, getOrderedValues = [Some (Instr 4), Some (Instr 5)],
                 getElements = {4, 5}, getDepended = {}, getIntermediateInsts = [4, 0, 5, 1],
                 getOperandPacks = [[None, None]], getCost = 1, getProducingCost = 1 \<rparr>"

definition exG1 :: frontier where
  "exG1 = \<lparr> BBIt = 2, UnresolvedScalars = {}, FreeInsts = {0, 1, 2, 3, 4, 5},
            UsableInsts = {2, 3, 4, 5}, UnresolvedPacks = [exOPHi] \<rparr>"

definition exG2 :: frontier where
  "exG2 = \<lparr> BBIt = 2, UnresolvedScalars = {}, FreeInsts = {0, 1, 4, 5},
            UsableInsts = {4, 5}, UnresolvedPacks = [exOP, exOPHi] \<rparr>"

definition exG3 :: frontier where
  "exG3 = \<lparr> BBIt = 8, UnresolvedScalars = {}, FreeInsts = {}, UsableInsts = {},
            UnresolvedPacks = [exOP] \<rparr>"

section \<open>Packers for the examples\<close>

text \<open>
  A constructor of memory packs that records the accesses; the packer of the block of
  two stores, whose store DAG is the edge from \<open>2\<close> to \<open>3\<close>; and a block of 32 consecutive,
  independent loads with its packer.
\<close>

definition exMemPack :: "pack_kind \<Rightarrow> inst list \<Rightarrow> nat set \<Rightarrow> nat set \<Rightarrow> vpack" where
  "exMemPack K xs E D =
     \<lparr> getKind = K, getOrderedValues = map (\<lambda>I. Some (Instr I)) xs, getElements = E,
       getDepended = D, getIntermediateInsts = [], getOperandPacks = [], getCost = 1,
       getProducingCost = 1 \<rparr>"

definition exPkr :: packer where
  "exPkr = \<lparr> getLoadDAG = (\<lambda>i. []),
             getStoreDAG = (\<lambda>i. if i = 2 then [3] else []),
             LDA_getDepended = (\<lambda>i. if i = 2 then {0} else if i = 3 then {1} else {}),
             createLoadPack = exMemPack Load,
             createStorePack = exMemPack Store,
             extendOperandPack = (\<lambda>F OP. ([], None)),
             tryCoalesceLoads = (\<lambda>VP Others. None) \<rparr>"

definition exChainBB :: ir where
  "exChainBB = \<lparr> block = [0 ..< 32],
            operands = (\<lambda>i. [Arg i]),
            users = (\<lambda>i. []),
            isPHINode = (\<lambda>i. False),
            isStoreInst = (\<lambda>i. False),
            isLoadInst = (\<lambda>i. True),
            getType = (\<lambda>v. 0),
            getNumValues = 32,
            addrOf = length,
            presetTy = (\<lambda>OP. None) \<rparr>"

definition exChainPkr :: packer where
  "exChainPkr = \<lparr> getLoadDAG = (\<lambda>i. if i < 31 then [Suc i] else []),
             getStoreDAG = (\<lambda>i. []),
             LDA_getDepended = (\<lambda>i. {}),
             createLoadPack = exMemPack Load,
             createStorePack = exMemPack Store,
             extendOperandPack = (\<lambda>F OP. ([], None)),
             tryCoalesceLoads = (\<lambda>VP Others. None) \<rparr>"

text \<open>A heuristic for the block of two stores: every scalar costs one, nothing produces
  an operand pack, and the operand pack \<open>(%0, %1)\<close> has the elements 0 and 1.\<close>

definition exH :: heuristic where
  "exH = \<lparr> getScalarCost = (\<lambda>I. 1), dedup = (\<lambda>OP. OP),
           getProducerInfo = (\<lambda>OP. \<lparr> getProducers = [], opiElements = {0, 1} \<rparr>),
           Candidates = None \<rparr>"

text \<open>The packer of the block of two stores when the store \<open>3\<close> depends on the store
  \<open>2\<close>: the two are consecutive, but not independent.\<close>

definition exDepPkr :: packer where
  "exDepPkr = exPkr\<lparr> LDA_getDepended := (\<lambda>i. if i = 3 then {2} else {}) \<rparr>"

section \<open>Verification: the frontier\<close>

lemma scanUsers_eq:
  "scanUsers bb i us (US, a) =
     (if \<exists>u. Instr u \<in> set us \<and> \<not> inBB bb u then insert i US else US,
      a \<and> (\<forall>u. Instr u \<in> set us \<longrightarrow> \<not> inBB bb u))"
proof (induction us arbitrary: US a)
  case Nil
  then show ?case by simp
next
  case (Cons v us)
  then show ?case by (cases v) auto
qed

lemma scanBlock_eq:
  "scanBlock bb is (US, Usable) =
     (US \<union> {i \<in> set is. \<exists>u. Instr u \<in> set (users bb i) \<and> \<not> inBB bb u},
      Usable \<union> {i \<in> set is. (\<forall>u. Instr u \<in> set (users bb i) \<longrightarrow> \<not> inBB bb u) \<or> isPHINode bb i})"
proof (induction "is" arbitrary: US Usable)
  case Nil
  then show ?case by simp
next
  case (Cons i "is")
  show ?case
    by (simp add: scanUsers_eq Cons.IH) blast
qed

lemma freezeOneInst_Some:
  "freezeOneInst bb F I = Some F1 \<Longrightarrow>
     I \<in> FreeInsts F \<and> FreeInsts F1 = FreeInsts F - {I} \<and> UnresolvedScalars F1 = UnresolvedScalars F - {I}
     \<and> UnresolvedPacks F1 = UnresolvedPacks F \<and> BBIt F1 = BBIt F"
  by (auto simp: freezeOneInst_def Let_def split: if_splits)

lemma advanceBBIt_fields [simp]:
  "FreeInsts (advanceBBIt bb F) = FreeInsts F"
  "UnresolvedScalars (advanceBBIt bb F) = UnresolvedScalars F"
  "UsableInsts (advanceBBIt bb F) = UsableInsts F"
  "UnresolvedPacks (advanceBBIt bb F) = UnresolvedPacks F"
  by (simp_all add: advanceBBIt_def)

lemma resolved_advanceBBIt [simp]: "resolved bb (advanceBBIt bb F) OP = resolved bb F OP"
  by (simp add: resolved_def isFreeLane_def[abs_def])

lemma insertCostLanes_sum:
  "insertCostLanes T VecTy I k Vs =
     (\<Sum>i\<leftarrow>[0 ..< length Vs]. if Vs ! i = Some (Instr I) then 2 * getInsertElementCost T VecTy (k + i) else 0)"
proof (induction Vs arbitrary: k)
  case Nil
  then show ?case by simp
next
  case (Cons V Vs)
  have "[0 ..< length (V # Vs)] = 0 # map Suc [0 ..< length Vs]"
    by (simp add: upt_conv_Cons map_Suc_upt del: upt_Suc)
  then show ?case
    by (simp add: Cons.IH comp_def del: upt_Suc cong: if_cong)
qed

lemma flaggedIds_mem:
  "k \<in> set (flaggedIds P i xs) \<longleftrightarrow> i \<le> k \<and> k - i < length xs \<and> P (xs ! (k - i))"
proof (induction xs arbitrary: i)
  case Nil
  then show ?case by simp
next
  case (Cons x xs)
  show ?case
  proof (cases "k = i")
    case True
    then show ?thesis using Cons.IH[of "Suc i"] by simp
  next
    case False
    have "i \<le> k \<Longrightarrow> (x # xs) ! (k - i) = xs ! (k - Suc i)"
      using False by (simp add: nth_Cons')
    moreover have "i \<le> k \<Longrightarrow> (k - i < Suc (length xs)) = (k - Suc i < length xs)"
      using False by auto
    ultimately show ?thesis
      using False by (auto simp: Cons.IH)
  qed
qed

lemma remove_vec_mem:
  "x \<in> set (remove_vec X Ids) \<longleftrightarrow> (\<exists>k < length X. X ! k = x \<and> k \<notin> set Ids)"
  unfolding remove_vec_def
  by (auto simp: set_zip image_iff) 

lemma remove_vec_flagged:
  "set (remove_vec (xs @ ys) (flaggedIds P 0 xs)) = {x \<in> set xs. \<not> P x} \<union> set ys"
proof (intro set_eqI iffI)
  fix x assume "x \<in> set (remove_vec (xs @ ys) (flaggedIds P 0 xs))"
  then obtain k where k: "k < length (xs @ ys)" "(xs @ ys) ! k = x" "k \<notin> set (flaggedIds P 0 xs)"
    by (auto simp: remove_vec_mem)
  show "x \<in> {x \<in> set xs. \<not> P x} \<union> set ys"
  proof (cases "k < length xs")
    case True
    with k show ?thesis by (auto simp: flaggedIds_mem nth_append)
  next
    case False
    with k show ?thesis by (auto simp: nth_append)
  qed
next
  fix x assume "x \<in> {x \<in> set xs. \<not> P x} \<union> set ys"
  then consider "x \<in> set xs" "\<not> P x" | "x \<in> set ys" by auto
  then show "x \<in> set (remove_vec (xs @ ys) (flaggedIds P 0 xs))"
  proof cases
    case 1
    then obtain k where "k < length xs" "xs ! k = x" by (auto simp: in_set_conv_nth)
    with 1 show ?thesis
      by (auto simp: remove_vec_mem flaggedIds_mem nth_append intro!: exI[of _ k])
  next
    case 2
    then obtain k where "k < length ys" "ys ! k = x" by (auto simp: in_set_conv_nth)
    then show ?thesis
      by (auto simp: remove_vec_mem flaggedIds_mem nth_append intro!: exI[of _ "length xs + k"])
  qed
qed

lemma remove_vec_Nil [simp]: "remove_vec X [] = X"
  by (simp add: remove_vec_def map_snd_zip)

lemma scalarizePacks_Some:
  "scalarizePacks bb T F I i OPs = Some (Cost, Ids) \<Longrightarrow>
     Cost = (\<Sum>OP\<leftarrow>OPs. if is_splat OP \<and> hd OP = Some (Instr I)
                          then getBroadcastCost T (the (getVectorTypeOP bb OP))
                          else insertCostLanes T (the (getVectorTypeOP bb OP)) I 0 OP)
     \<and> Ids = flaggedIds (\<lambda>OP. (is_splat OP \<and> hd OP = Some (Instr I)) \<or> resolved bb F OP) i OPs"
proof (induction OPs arbitrary: i Cost Ids)
  case Nil
  then show ?case by simp
next
  case (Cons OP OPs)
  from Cons.prems obtain VecTy C' Ids' where
    vt: "getVectorTypeOP bb OP = Some VecTy" and
    rest: "scalarizePacks bb T F I (Suc i) OPs = Some (C', Ids')"
    by (auto split: option.splits)
  note IH = Cons.IH[OF rest]
  show ?case
    using Cons.prems vt rest IH
    by (auto split: if_splits)
qed

lemma sortPacks_set [simp]: "set (sortPacks bb X) = set X"
  by (simp add: sortPacks_def)

lemma resolved_iff:
  "resolved bb F OP \<longleftrightarrow> (\<forall>J. Some (Instr J) \<in> set OP \<and> inBB bb J \<longrightarrow> J \<notin> FreeInsts F)"
  unfolding resolved_def list_ex_iff isFreeLane_def
  by (auto split: option.splits val.splits)

lemma resolved_cong: "FreeInsts F = FreeInsts G \<Longrightarrow> resolved bb F OP = resolved bb G OP"
  by (simp add: resolved_iff)

lemma is_permutation_mset: "is_permutation xs ys \<longleftrightarrow> mset xs = mset ys"
proof (induction xs arbitrary: ys)
  case Nil
  then show ?case by auto
next
  case (Cons x xs)
  show ?case
  proof (cases "x \<in> set ys")
    case True
    then have "mset ys = add_mset x (mset (remove1 x ys))" by simp
    then show ?thesis using True Cons.IH[of "remove1 x ys"] by (metis add_mset_remove_trivial is_permutation.simps(2) mset.simps(2) mset_remove1)
  next
    case False
    have "mset (x # xs) = mset ys \<Longrightarrow> x \<in> set ys"
      by (metis list.set_intros(1) mset_eq_setD)
    then show ?thesis using False by auto
  qed
qed

lemma produced_not_constant:
  "resolveOperandPack bb VP OP \<Longrightarrow> \<not> isConstantPack OP"
  by (auto simp: resolveOperandPack_def isConstantPack_def list_ex_iff list_all_iff
        isProducedLane_def isConstantLane_def split: option.splits val.splits)

lemma getGatherCost_produced:
  assumes "resolveOperandPack bb VP OP" and "getVectorTypeVP bb VP = Some VecTy"
  shows "getGatherCost bb T VP OP =
           Some (if getOrderedValues VP = OP then 0
                 else if length (getOrderedValues VP) = length OP \<and> mset (getOrderedValues VP) = mset OP
                   then getPermuteSingleSrcCost T VecTy
                 else 2)"
  using assms produced_not_constant[OF assms(1)]
  by (auto simp: getGatherCost_def Let_def is_permutation_mset)

lemma gatherPacks_Some:
  "gatherPacks bb T F VP i OPs = Some (Cost, Ids) \<Longrightarrow>
     Cost = (\<Sum>OP\<leftarrow>OPs. if resolveOperandPack bb VP OP then the (getGatherCost bb T VP OP) else 0)
     \<and> Ids = flaggedIds (\<lambda>OP. resolveOperandPack bb VP OP \<and> resolved bb F OP) i OPs"
proof (induction OPs arbitrary: i Cost Ids)
  case Nil
  then show ?case by simp
next
  case (Cons OP OPs)
  from Cons.prems obtain C' Ids' where
    rest: "gatherPacks bb T F VP (Suc i) OPs = Some (C', Ids')"
    by (auto split: option.splits)
  note IH = Cons.IH[OF rest]
  show ?case
    using Cons.prems rest IH
    by (auto split: if_splits option.splits)
qed

lemma trackOperandPacks_Some:
  "trackOperandPacks bb T F OPs (Cost, UP) = Some (Cost', UP') \<Longrightarrow>
     Cost' = Cost + (\<Sum>OP\<leftarrow>OPs. operandInsertCost bb T (the (getVectorTypeOP bb OP)) 0 OP)
     \<and> (\<exists>added. UP' = UP @ added \<and> set added \<subseteq> {OP \<in> set OPs. \<not> resolved bb F OP})"
proof (induction OPs arbitrary: Cost UP)
  case Nil
  then show ?case by simp
next
  case (Cons OP OPs)
  from Cons.prems obtain Ty where ty: "getVectorTypeOP bb OP = Some Ty"
    by (auto split: option.splits)
  let ?UP1 = "if \<not> resolved bb F OP \<and> \<not> binary_search (addrOf bb) UP OP then UP @ [OP] else UP"
  have rest: "trackOperandPacks bb T F OPs (Cost + operandInsertCost bb T Ty 0 OP, ?UP1) = Some (Cost', UP')"
    using Cons.prems ty by simp
  from Cons.IH[OF rest] obtain added where
    c: "Cost' = Cost + operandInsertCost bb T Ty 0 OP
          + (\<Sum>OP\<leftarrow>OPs. operandInsertCost bb T (the (getVectorTypeOP bb OP)) 0 OP)"
    and a: "UP' = ?UP1 @ added" "set added \<subseteq> {OP \<in> set OPs. \<not> resolved bb F OP}"
    by auto
  show ?case
  proof (cases "\<not> resolved bb F OP \<and> \<not> binary_search (addrOf bb) UP OP")
    case True
    then have "UP' = UP @ (OP # added)" using a by simp
    moreover have "set (OP # added) \<subseteq> {OP' \<in> set (OP # OPs). \<not> resolved bb F OP'}"
      using True a by auto
    ultimately show ?thesis using c ty by (intro conjI exI[of _ "OP # added"]) auto
  next
    case False
    then have "UP' = UP @ added" using a by auto
    moreover have "set added \<subseteq> {OP' \<in> set (OP # OPs). \<not> resolved bb F OP'}"
      using a by auto
    ultimately show ?thesis using c ty by (intro conjI exI[of _ added]) auto
  qed
qed

lemma freezeInsts_Some:
  "freezeInsts bb F Is = Some F1 \<Longrightarrow>
     FreeInsts F1 = FreeInsts F - set Is \<and> UnresolvedScalars F1 = UnresolvedScalars F - set Is
     \<and> UnresolvedPacks F1 = UnresolvedPacks F"
proof (induction Is arbitrary: F)
  case Nil
  then show ?case by simp
next
  case (Cons I Is)
  from Cons.prems obtain F0 where f0: "freezeOneInst bb F I = Some F0"
    and rest: "freezeInsts bb F0 Is = Some F1"
    by (auto split: option.splits)
  from freezeOneInst_Some[OF f0] Cons.IH[OF rest] show ?case by auto
qed

lemma gatherPacks_cong:
  assumes "FreeInsts F = FreeInsts G"
  shows "gatherPacks bb T F VP i OPs = gatherPacks bb T G VP i OPs"
  by (induction OPs arbitrary: i) (auto simp: resolved_cong[OF assms] split: option.splits)

text \<open>The parts of a pack commit.\<close>

lemma advanceInplace_pack_Some:
  assumes "advanceInplace_pack bb T F VP = Some (c, F')"
  obtains ExtractCost Replaced GatherCost Ids InsertCost added where
    "extractCostLanes T (UnresolvedScalars F) (if isStore VP then None else getVectorTypeVP bb VP) 0
        (getOrderedValues VP) = Some ExtractCost"
    "getReplacedInsts bb VP = Some Replaced"
    "FreeInsts F' = FreeInsts F - set Replaced"
    "UnresolvedScalars F' = UnresolvedScalars F - set Replaced"
    "isStore VP \<or> getVectorTypeVP bb VP \<noteq> None"
    "(if isStore VP then Some (0, []) else gatherPacks bb T F' VP 0 (UnresolvedPacks F)) = Some (GatherCost, Ids)"
    "InsertCost = (\<Sum>OP\<leftarrow>getOperandPacks VP. operandInsertCost bb T (the (getVectorTypeOP bb OP)) 0 OP)"
    "set added \<subseteq> {OP \<in> set (getOperandPacks VP). \<not> resolved bb F' OP}"
    "UnresolvedPacks F' = sortPacks bb (remove_vec (UnresolvedPacks F @ added) Ids)"
    "c = getCost VP + real (ExtractCost + GatherCost + InsertCost)"
proof -
  from assms have vt: "isStore VP \<or> getVectorTypeVP bb VP \<noteq> None"
    by (auto simp: advanceInplace_pack_def split: if_splits)
  from assms vt obtain ExtractCost Replaced F1 GatherCost Ids InsertCost UP where
    ex: "extractCostLanes T (UnresolvedScalars F) (if isStore VP then None else getVectorTypeVP bb VP) 0
        (getOrderedValues VP) = Some ExtractCost" and
    rp: "getReplacedInsts bb VP = Some Replaced" and
    fr: "freezeInsts bb F Replaced = Some F1" and
    ga: "(if \<not> isStore VP then gatherPacks bb T (advanceBBIt bb F1) VP 0 (UnresolvedPacks F1)
          else Some (0, [])) = Some (GatherCost, Ids)" and
    tr: "trackOperandPacks bb T (advanceBBIt bb F1) (getOperandPacks VP) (0, UnresolvedPacks F1)
          = Some (InsertCost, UP)" and
    c: "c = getCost VP + real (ExtractCost + GatherCost + InsertCost)" and
    F': "F' = (advanceBBIt bb F1)\<lparr> UnresolvedPacks := sortPacks bb (remove_vec UP Ids) \<rparr>"
    unfolding advanceInplace_pack_def Let_def
    by (auto split: option.splits if_splits)
  note f1 = freezeInsts_Some[OF fr]
  have free: "FreeInsts F' = FreeInsts F - set Replaced" and us: "UnresolvedScalars F' = UnresolvedScalars F - set Replaced"
    using F' f1 by simp_all
  have res: "\<And>X OP. resolved bb (advanceBBIt bb F1\<lparr>UnresolvedPacks := X\<rparr>) OP = resolved bb F1 OP"
    by (simp add: resolved_iff)
  have gat: "\<And>X i OPs. gatherPacks bb T (advanceBBIt bb F1\<lparr>UnresolvedPacks := X\<rparr>) VP i OPs
                = gatherPacks bb T (advanceBBIt bb F1) VP i OPs"
    by (rule gatherPacks_cong) simp
  from trackOperandPacks_Some[OF tr] obtain added where
    ic: "InsertCost = (\<Sum>OP\<leftarrow>getOperandPacks VP. operandInsertCost bb T (the (getVectorTypeOP bb OP)) 0 OP)"
    and ad: "UP = UnresolvedPacks F1 @ added"
            "set added \<subseteq> {OP \<in> set (getOperandPacks VP). \<not> resolved bb (advanceBBIt bb F1) OP}"
    by auto
  show ?thesis
  proof (rule that[OF ex rp free us vt _ ic, of GatherCost Ids added])
    show "(if isStore VP then Some (0, []) else gatherPacks bb T F' VP 0 (UnresolvedPacks F)) = Some (GatherCost, Ids)"
      using ga f1 by (auto simp: F' gat)
    show "set added \<subseteq> {OP \<in> set (getOperandPacks VP). \<not> resolved bb F' OP}"
      using ad by (simp add: F' res)
    show "UnresolvedPacks F' = sortPacks bb (remove_vec (UnresolvedPacks F @ added) Ids)"
      using ad f1 by (simp add: F')
    show "c = getCost VP + real (ExtractCost + GatherCost + InsertCost)" by (rule c)
  qed
qed

lemma flaggedIds_none: "\<forall>x \<in> set xs. \<not> P x \<Longrightarrow> flaggedIds P i xs = []"
  by (induction xs arbitrary: i) auto

lemma gatherCharge_eq:
  assumes "getVectorTypeVP bb VP = Some VecTy"
  shows "(if resolveOperandPack bb VP OP then the (getGatherCost bb T VP OP) else 0) = gatherCharge bb T VP OP"
proof (cases "resolveOperandPack bb VP OP")
  case True
  show ?thesis
    unfolding gatherCharge_def getGatherCost_produced[OF True assms]
    using assms by simp
next
  case False
  then show ?thesis by (simp add: gatherCharge_def)
qed

lemma gather_part:
  assumes ga: "(if isStore VP then Some (0, []) else gatherPacks bb T F' VP 0 OPs) = Some (GatherCost, Ids)"
      and vt: "isStore VP \<or> getVectorTypeVP bb VP \<noteq> None"
      and typed: "isStore VP \<longrightarrow> \<not> list_ex (resolveOperandPack bb VP) OPs"
  shows "GatherCost = (\<Sum>OP\<leftarrow>OPs. gatherCharge bb T VP OP)"
    and "Ids = flaggedIds (\<lambda>OP. resolveOperandPack bb VP OP \<and> resolved bb F' OP) 0 OPs"
proof -
  show "GatherCost = (\<Sum>OP\<leftarrow>OPs. gatherCharge bb T VP OP)"
  proof (cases "isStore VP")
    case True
    then have "\<forall>OP \<in> set OPs. gatherCharge bb T VP OP = 0"
      using typed by (simp add: list_ex_iff gatherCharge_def)
    then have "(\<Sum>OP\<leftarrow>OPs. gatherCharge bb T VP OP) = 0"
      by (simp add: sum_list_eq_0_iff)
    then show ?thesis using True ga by simp
  next
    case False
    then obtain VecTy where v: "getVectorTypeVP bb VP = Some VecTy" using vt by auto
    from False ga have g: "gatherPacks bb T F' VP 0 OPs = Some (GatherCost, Ids)" by simp
    show ?thesis
      using gatherPacks_Some[OF g] by (simp add: gatherCharge_eq[OF v])
  qed
  show "Ids = flaggedIds (\<lambda>OP. resolveOperandPack bb VP OP \<and> resolved bb F' OP) 0 OPs"
  proof (cases "isStore VP")
    case True
    then have "\<forall>OP \<in> set OPs. \<not> (resolveOperandPack bb VP OP \<and> resolved bb F' OP)"
      using typed by (simp add: list_ex_iff)
    then have "flaggedIds (\<lambda>OP. resolveOperandPack bb VP OP \<and> resolved bb F' OP) 0 OPs = []"
      by (rule flaggedIds_none)
    then show ?thesis using True ga by simp
  next
    case False
    from False ga have g: "gatherPacks bb T F' VP 0 OPs = Some (GatherCost, Ids)" by simp
    show ?thesis using gatherPacks_Some[OF g] by simp
  qed
qed


lemma commit_packs_after:
  assumes ad: "set added \<subseteq> {OP \<in> set (getOperandPacks VP). \<not> resolved bb F' OP}"
      and up: "UnresolvedPacks F' = sortPacks bb (remove_vec (UnresolvedPacks F @ added) Ids)"
      and ids: "Ids = flaggedIds (\<lambda>OP. resolveOperandPack bb VP OP \<and> resolved bb F' OP) 0 (UnresolvedPacks F)"
  shows "set (UnresolvedPacks F') =
      {OP \<in> set (UnresolvedPacks F). \<not> (resolveOperandPack bb VP OP \<and> resolved bb F' OP)} \<union> set added"
  unfolding up ids by (simp add: remove_vec_flagged)

lemma advanceInplace_inst_Some:
  assumes "advanceInplace_inst bb T F I = Some (c, F')"
  shows "c = real (\<Sum>OP\<leftarrow>UnresolvedPacks F.
                 if is_splat OP \<and> hd OP = Some (Instr I)
                 then getBroadcastCost T (the (getVectorTypeOP bb OP))
                 else insertCostLanes T (the (getVectorTypeOP bb OP)) I 0 OP)"
    and "set (UnresolvedPacks F') =
           {OP \<in> set (UnresolvedPacks F).
              \<not> (is_splat OP \<and> hd OP = Some (Instr I)) \<and> \<not> resolved bb F' OP}"
    and "FreeInsts F' = FreeInsts F - {I}"
    and "UnresolvedScalars F' = markOperands bb (FreeInsts F - {I}) (operands bb I) (UnresolvedScalars F - {I})"
    and "I \<in> FreeInsts F"
proof -
  from assms obtain F1 Cost Ids where
    fr: "freezeOneInst bb F I = Some F1" and
    sc: "scalarizePacks bb T (advanceBBIt bb F1) I 0 (UnresolvedPacks F1) = Some (Cost, Ids)" and
    c: "c = real Cost" and
    F': "F' = (advanceBBIt bb F1)\<lparr> UnresolvedScalars :=
                 markOperands bb (FreeInsts F1) (operands bb I) (UnresolvedScalars F1),
               UnresolvedPacks := sortPacks bb (remove_vec (UnresolvedPacks F1) Ids) \<rparr>"
    by (auto simp: advanceInplace_inst_def Let_def split: option.splits)
  note f1 = freezeOneInst_Some[OF fr]
  note s = scalarizePacks_Some[OF sc]
  show free: "FreeInsts F' = FreeInsts F - {I}"
    using F' f1 by simp
  show "UnresolvedScalars F' = markOperands bb (FreeInsts F - {I}) (operands bb I) (UnresolvedScalars F - {I})"
    using F' f1 by simp
  show "I \<in> FreeInsts F" using f1 by simp
  have res: "\<And>OP. resolved bb F1 OP = resolved bb F' OP"
    using F' by (simp add: resolved_iff)
  have up: "UnresolvedPacks F' = sortPacks bb (remove_vec (UnresolvedPacks F) Ids)"
    using F' f1 by simp
  have ids: "Ids = flaggedIds (\<lambda>OP. (is_splat OP \<and> hd OP = Some (Instr I)) \<or> resolved bb F' OP) 0
                     (UnresolvedPacks F)"
    using s f1 by (simp add: res)
  show "set (UnresolvedPacks F') =
          {OP \<in> set (UnresolvedPacks F). \<not> (is_splat OP \<and> hd OP = Some (Instr I)) \<and> \<not> resolved bb F' OP}"
    unfolding up ids using remove_vec_flagged[of "UnresolvedPacks F" "[]"]
    by simp
  show "c = real (\<Sum>OP\<leftarrow>UnresolvedPacks F.
                 if is_splat OP \<and> hd OP = Some (Instr I)
                 then getBroadcastCost T (the (getVectorTypeOP bb OP))
                 else insertCostLanes T (the (getVectorTypeOP bb OP)) I 0 OP)"
    using c s f1 by simp
qed

lemma markOperands_subset:
  "markOperands bb Free ops US \<subseteq> US \<union> {I2. Instr I2 \<in> set ops \<and> inBB bb I2 \<and> I2 \<in> Free}"
proof (induction ops arbitrary: US)
  case Nil
  then show ?case by simp
next
  case (Cons V ops)
  show ?case
  proof (cases V)
    case (Instr I2)
    then show ?thesis using Cons.IH[of "insert I2 US"] Cons.IH[of US] by auto
  next
    case (Const c)
    then show ?thesis using Cons.IH[of US] by auto
  next
    case (Arg a)
    then show ?thesis using Cons.IH[of US] by auto
  qed
qed


lemma advanceInplace_shuffle_Some:
  "advanceInplace_shuffle bb T F ST = Some (c, F') \<Longrightarrow>
     UnresolvedScalars F' = UnresolvedScalars F \<and> FreeInsts F' = FreeInsts F"
  by (auto simp: advanceInplace_shuffle_def Let_def simp del: lower_bound.simps split: if_splits)

text \<open>Store instructions are never unresolved scalars.\<close>

lemma reachable_no_store_scalar:
  assumes wf: "storesUnused bb"
  shows "reachable bb T F \<Longrightarrow> \<forall>I \<in> UnresolvedScalars F. \<not> isStoreInst bb I"
proof (induction rule: reachable.induct)
  case fresh
  have "UnresolvedScalars (Frontier bb) =
          {i \<in> set (block bb). \<exists>u. Instr u \<in> set (users bb i) \<and> \<not> inBB bb u}"
    by (simp add: Frontier_def scanBlock_eq split: prod.splits)
  then show ?case using wf by (auto simp: storesUnused_def)
next
  case (scalarize F I c F')
  have "UnresolvedScalars F' \<subseteq> UnresolvedScalars F \<union> {I2. Instr I2 \<in> set (operands bb I)}"
    using advanceInplace_inst_Some(4)[OF scalarize.hyps(2)] markOperands_subset[of bb "FreeInsts F - {I}" "operands bb I" "UnresolvedScalars F - {I}"]
    by auto
  then show ?case using scalarize.IH wf by (auto simp: storesUnused_def)
next
  case (commit F VP c F')
  from commit.hyps(2) obtain Replaced where "UnresolvedScalars F' = UnresolvedScalars F - set Replaced"
    by (rule advanceInplace_pack_Some)
  then show ?case using commit.IH by auto
next
  case (shuffle F ST c F')
  then show ?case using advanceInplace_shuffle_Some[OF shuffle.hyps(2)] by simp
qed

lemma extractCostLanes_none:
  "\<forall>I. Some (Instr I) \<in> set Vs \<longrightarrow> I \<notin> US \<Longrightarrow> extractCostLanes T US VecTy i Vs = Some 0"
  by (induction T US VecTy i Vs rule: extractCostLanes.induct) auto

lemmas ex_defs = exBB_def exTTI_def exStorePack_def exLoadPack_def exOP_def exF1_def exF2_def exF3_def

lemma exFrontier:
  "Frontier exBB = \<lparr> BBIt = 0, UnresolvedScalars = {1}, FreeInsts = {0 ..< 4}, UsableInsts = {3, 2},
            UnresolvedPacks = [] \<rparr>"
  by (simp add: Frontier_def exBB_def inBB_def)


lemma exScalarize: "advanceInplace_inst exBB exTTI exF1 0 = Some (2, exF2)"
  by (auto simp: advanceInplace_inst_def ex_defs
    freezeOneInst_def inBB_def isFreeUserInBB_def advanceBBIt_def is_splat_def
    getVectorTypeOP_def resolved_def isFreeLane_def binary_search_def sortPacks_def remove_vec_def)

lemma exCommitLoad: "advanceInplace_pack exBB exTTI exF1 exLoadPack = Some (3, exF3)"
  by (auto simp: advanceInplace_pack_def ex_defs isStore_def
    getReplacedInsts_def laterFirst_def freezeOneInst_def inBB_def isFreeUserInBB_def advanceBBIt_def
    getVectorTypeOP_def getVectorTypeVP_def resolved_def isFreeLane_def binary_search_def sortPacks_def remove_vec_def
    resolveOperandPack_def isProducedLane_def getGatherCost_def isConstantPack_def isConstantLane_def)



lemma exStoresUnused: "storesUnused exBB"
  by (auto simp: storesUnused_def exBB_def)


lemmas exG_defs = exGenBB_def exTTI_def exStoreHi_def exStoreLo_def exGenPack_def exOP_def exOPHi_def
  exG1_def exG2_def exG3_def

lemma exGFrontier:
  "Frontier exGenBB = \<lparr> BBIt = 0, UnresolvedScalars = {}, FreeInsts = {0 ..< 8},
            UsableInsts = {7, 6, 3, 2}, UnresolvedPacks = [] \<rparr>"
  by (simp add: Frontier_def exGenBB_def inBB_def)

lemma exGCommit1: "advanceInplace_pack exGenBB exTTI (Frontier exGenBB) exStoreHi = Some (1, exG1)"
  unfolding exGFrontier
  by (auto simp: advanceInplace_pack_def exG_defs isStore_def
    getReplacedInsts_def laterFirst_def freezeOneInst_def inBB_def isFreeUserInBB_def advanceBBIt_def
    getVectorTypeOP_def resolved_def isFreeLane_def binary_search_def sortPacks_def remove_vec_def)

lemma exGCommit2: "advanceInplace_pack exGenBB exTTI exG1 exStoreLo = Some (1, exG2)"
  by (auto simp: advanceInplace_pack_def exG_defs isStore_def
    getReplacedInsts_def laterFirst_def freezeOneInst_def inBB_def isFreeUserInBB_def advanceBBIt_def
    getVectorTypeOP_def resolved_def isFreeLane_def binary_search_def sortPacks_def remove_vec_def)

lemma exGCommit3: "advanceInplace_pack exGenBB exTTI exG2 exGenPack = Some (1, exG3)"
  by (auto simp: advanceInplace_pack_def exG_defs isStore_def
    getReplacedInsts_def laterFirst_def freezeOneInst_def inBB_def isFreeUserInBB_def advanceBBIt_def
    getVectorTypeOP_def getVectorTypeVP_def resolved_def isFreeLane_def binary_search_def sortPacks_def remove_vec_def
    resolveOperandPack_def isProducedLane_def getGatherCost_def isConstantPack_def isConstantLane_def)

lemma exGReachable1: "reachable exGenBB exTTI exG1"
  by (rule reachable.commit[OF reachable.fresh exGCommit1])


lemma exGStoresUnused: "storesUnused exGenBB"
  by (auto simp: storesUnused_def exGenBB_def)
section \<open>Verification: the claims about the frontier\<close>

text \<open>
  Claim C3. The fresh frontier of a block: the cursor is at the last instruction of the
  block; every instruction of the block is free; the unresolved scalars are exactly the
  instructions of the block with a user that is an instruction of another block; the
  usable instructions are exactly the instructions of the block none of whose users is
  an instruction of the block, and the phi nodes; no operand pack is unresolved.
  (The scalar ids of the block's instructions are below \<open>getNumValues\<close>.)
\<close>

theorem Frontier_initial_state:
  assumes "block bb \<noteq> []" and "set (block bb) \<subseteq> {0 ..< getNumValues bb}"
  shows "getNextFreeInst bb (Frontier bb) = Some (last (block bb))
       \<and> set (block bb) \<subseteq> FreeInsts (Frontier bb)
       \<and> UnresolvedScalars (Frontier bb) =
           {i \<in> set (block bb). \<exists>u. Instr u \<in> set (users bb i) \<and> \<not> inBB bb u}
       \<and> UsableInsts (Frontier bb) =
           {i \<in> set (block bb). (\<forall>u. Instr u \<in> set (users bb i) \<longrightarrow> \<not> inBB bb u) \<or> isPHINode bb i}
       \<and> UnresolvedPacks (Frontier bb) = []"
  using assms
  by (simp add: Frontier_def getNextFreeInst_def scanBlock_eq split: prod.splits)
     (simp add: hd_rev rev_nth last_conv_nth)

lemma exBlock: "block exBB \<noteq> []" "set (block exBB) \<subseteq> {0 ..< getNumValues exBB}"
  by (simp_all add: exBB_def)

theorem Frontier_initial_state_witness:
  "block exBB \<noteq> [] \<and> set (block exBB) \<subseteq> {0 ..< getNumValues exBB}
   \<and> getNextFreeInst exBB (Frontier exBB) = Some 3
   \<and> set (block exBB) \<subseteq> FreeInsts (Frontier exBB)
   \<and> UnresolvedScalars (Frontier exBB) = {1}
   \<and> UsableInsts (Frontier exBB) = {2, 3}"
  using exBlock Frontier_initial_state[OF exBlock]
  by (auto simp: exFrontier) (auto simp: exBB_def)

text \<open>
  Claim C1, as amended. Scalarizing the free instruction \<open>I\<close> returns the sum, over the
  unresolved operand packs, of the broadcast cost of the pack's vector type when the
  pack is a splat of \<open>I\<close>, and else of \<^emph>\<open>twice\<close> the insert cost of every lane that is
  \<open>I\<close> (nothing for a pack without \<open>I\<close>). A pack stays unresolved exactly when it is no
  splat of \<open>I\<close> and one of its lanes is an instruction of the block that is still free
  afterwards.
\<close>

theorem advanceInplace_inst_packs:
  assumes "advanceInplace_inst bb T F I = Some (c, F')"
  shows "c = real (\<Sum>OP\<leftarrow>UnresolvedPacks F.
                 if is_splat OP \<and> hd OP = Some (Instr I)
                 then getBroadcastCost T (the (getVectorTypeOP bb OP))
                 else (\<Sum>i\<leftarrow>[0 ..< length OP].
                        if OP ! i = Some (Instr I)
                        then 2 * getInsertElementCost T (the (getVectorTypeOP bb OP)) i else 0))
       \<and> set (UnresolvedPacks F') =
           {OP \<in> set (UnresolvedPacks F).
              \<not> (is_splat OP \<and> hd OP = Some (Instr I)) \<and>
              (\<exists>J. Some (Instr J) \<in> set OP \<and> inBB bb J \<and> J \<in> FreeInsts F')}
       \<and> FreeInsts F' = FreeInsts F - {I}"
  using advanceInplace_inst_Some(1,2,3)[OF assms]
  by (simp add: insertCostLanes_sum resolved_iff cong: if_cong)

theorem advanceInplace_inst_packs_witness:
  "advanceInplace_inst exBB exTTI exF1 0 = Some (2, exF2)
   \<and> set (UnresolvedPacks exF2) = {exOP}
   \<and> FreeInsts exF2 = FreeInsts exF1 - {0}
   \<and> (2::real) = real (2 * getInsertElementCost exTTI (the (getVectorTypeOP exBB exOP)) 0)"
  using exScalarize advanceInplace_inst_packs[OF exScalarize]
  by (simp add: exF1_def exF2_def) (simp add: ex_defs)

text \<open>
  The claim C1 as stated, with the insert cost paid once for each lane, fails: for the
  operand pack \<open>(%0, %1)\<close> and an insert cost of one, scalarizing \<open>%0\<close> costs two.
\<close>

theorem advanceInplace_inst_packs_counterexample:
  "\<exists>c F'. advanceInplace_inst exBB exTTI exF1 0 = Some (c, F')
     \<and> c \<noteq> real (\<Sum>OP\<leftarrow>UnresolvedPacks exF1.
                 if is_splat OP \<and> hd OP = Some (Instr 0)
                 then getBroadcastCost exTTI (the (getVectorTypeOP exBB OP))
                 else (\<Sum>i\<leftarrow>[0 ..< length OP].
                        if OP ! i = Some (Instr 0)
                        then getInsertElementCost exTTI (the (getVectorTypeOP exBB OP)) i else 0))"
  by (rule exI[of _ 2], rule exI[of _ exF2]) (simp add: exScalarize, simp add: ex_defs is_splat_def)

text \<open>
  Claim C2. Committing the pack \<open>VP\<close> returns its cost, the extract costs, the insert
  costs of its own operand packs and, for every unresolved operand pack \<open>OP\<close> with a lane
  produced by \<open>VP\<close>: nothing when the ordered values of \<open>VP\<close> are \<open>OP\<close>, the target's
  single-source permute cost when they are a permutation of \<open>OP\<close>, and two otherwise.
  Such a pack stays unresolved exactly when one of its lanes is an instruction of the
  block that is still free. (A store pack produces no lane of an operand pack.) The
  commit of a pack with an operand pack of don't-care lanes is covered: the type of that
  operand pack is preset.
\<close>

theorem advanceInplace_pack_gather:
  assumes step: "advanceInplace_pack bb T F VP = Some (c, F')"
      and typed: "isStore VP \<longrightarrow> \<not> list_ex (resolveOperandPack bb VP) (UnresolvedPacks F)"
  shows "c = getCost VP
           + real (the (extractCostLanes T (UnresolvedScalars F)
                          (if isStore VP then None else getVectorTypeVP bb VP) 0 (getOrderedValues VP))
                   + (\<Sum>OP\<leftarrow>UnresolvedPacks F.
                        if resolveOperandPack bb VP OP
                        then (if getOrderedValues VP = OP then 0
                              else if length (getOrderedValues VP) = length OP
                                      \<and> mset (getOrderedValues VP) = mset OP
                                then getPermuteSingleSrcCost T (the (getVectorTypeVP bb VP))
                              else 2)
                        else 0)
                   + (\<Sum>OP\<leftarrow>getOperandPacks VP.
                        operandInsertCost bb T (the (getVectorTypeOP bb OP)) 0 OP))
       \<and> (\<forall>OP \<in> set (UnresolvedPacks F). resolveOperandPack bb VP OP \<longrightarrow>
             (OP \<in> set (UnresolvedPacks F') \<longleftrightarrow>
              (\<exists>J. Some (Instr J) \<in> set OP \<and> inBB bb J \<and> J \<in> FreeInsts F')))"
proof -
  from step obtain ExtractCost Replaced GatherCost Ids InsertCost added where
    ex: "extractCostLanes T (UnresolvedScalars F) (if isStore VP then None else getVectorTypeVP bb VP) 0
        (getOrderedValues VP) = Some ExtractCost" and
    vt: "isStore VP \<or> getVectorTypeVP bb VP \<noteq> None" and
    ga: "(if isStore VP then Some (0, []) else gatherPacks bb T F' VP 0 (UnresolvedPacks F)) = Some (GatherCost, Ids)" and
    ic: "InsertCost = (\<Sum>OP\<leftarrow>getOperandPacks VP. operandInsertCost bb T (the (getVectorTypeOP bb OP)) 0 OP)" and
    ad: "set added \<subseteq> {OP \<in> set (getOperandPacks VP). \<not> resolved bb F' OP}" and
    up: "UnresolvedPacks F' = sortPacks bb (remove_vec (UnresolvedPacks F @ added) Ids)" and
    c: "c = getCost VP + real (ExtractCost + GatherCost + InsertCost)"
    by (rule advanceInplace_pack_Some)
  note g = gather_part[OF ga vt typed]
  note set_up = commit_packs_after[OF ad up g(2)]
  have "\<forall>OP \<in> set (UnresolvedPacks F). resolveOperandPack bb VP OP \<longrightarrow>
             (OP \<in> set (UnresolvedPacks F') \<longleftrightarrow> \<not> resolved bb F' OP)"
    using set_up ad by auto
  then have 2: "\<forall>OP \<in> set (UnresolvedPacks F). resolveOperandPack bb VP OP \<longrightarrow>
             (OP \<in> set (UnresolvedPacks F') \<longleftrightarrow>
              (\<exists>J. Some (Instr J) \<in> set OP \<and> inBB bb J \<and> J \<in> FreeInsts F'))"
    by (simp add: resolved_iff)
  have 1: "c = getCost VP + real (the (extractCostLanes T (UnresolvedScalars F)
                          (if isStore VP then None else getVectorTypeVP bb VP) 0 (getOrderedValues VP))
                   + (\<Sum>OP\<leftarrow>UnresolvedPacks F. gatherCharge bb T VP OP)
                   + (\<Sum>OP\<leftarrow>getOperandPacks VP.
                        operandInsertCost bb T (the (getVectorTypeOP bb OP)) 0 OP))"
    unfolding c ex g(1) ic by simp
  show ?thesis
    using 1 2 unfolding gatherCharge_def by blast
qed

theorem advanceInplace_pack_gather_witness:
  "advanceInplace_pack exBB exTTI exF1 exLoadPack = Some (3, exF3)
   \<and> \<not> isStore exLoadPack
   \<and> resolveOperandPack exBB exLoadPack exOP
   \<and> getOrderedValues exLoadPack \<noteq> exOP
   \<and> mset (getOrderedValues exLoadPack) = mset exOP
   \<and> exOP \<notin> set (UnresolvedPacks exF3)
   \<and> (3::real) = getCost exLoadPack + real (1 + getPermuteSingleSrcCost exTTI (the (getVectorTypeVP exBB exLoadPack)) + 0)
   \<and> advanceInplace_pack exGenBB exTTI exG2 exGenPack = Some (1, exG3)
   \<and> \<not> isStore exGenPack
   \<and> getOperandPacks exGenPack = [[None, None]]
   \<and> resolveOperandPack exGenBB exGenPack exOPHi
   \<and> getOrderedValues exGenPack = exOPHi
   \<and> exOPHi \<in> set (UnresolvedPacks exG2) \<and> exOPHi \<notin> set (UnresolvedPacks exG3)
   \<and> (1::real) = getCost exGenPack + real (0 + 0 + 0)"
proof -
  have typed: "isStore exLoadPack \<longrightarrow> \<not> list_ex (resolveOperandPack exBB exLoadPack) (UnresolvedPacks exF1)"
    by (simp add: isStore_def exLoadPack_def)
  have typedG: "isStore exGenPack \<longrightarrow> \<not> list_ex (resolveOperandPack exGenBB exGenPack) (UnresolvedPacks exG2)"
    by (simp add: isStore_def exGenPack_def)
  have 1: "advanceInplace_pack exBB exTTI exF1 exLoadPack = Some (3, exF3)
   \<and> \<not> isStore exLoadPack
   \<and> resolveOperandPack exBB exLoadPack exOP
   \<and> getOrderedValues exLoadPack \<noteq> exOP
   \<and> mset (getOrderedValues exLoadPack) = mset exOP
   \<and> exOP \<notin> set (UnresolvedPacks exF3)
   \<and> (3::real) = getCost exLoadPack + real (1 + getPermuteSingleSrcCost exTTI (the (getVectorTypeVP exBB exLoadPack)) + 0)"
    using advanceInplace_pack_gather[OF exCommitLoad typed] exCommitLoad
    by (simp add: ex_defs isStore_def resolveOperandPack_def isProducedLane_def inBB_def)
  have 2: "advanceInplace_pack exGenBB exTTI exG2 exGenPack = Some (1, exG3)
   \<and> \<not> isStore exGenPack
   \<and> getOperandPacks exGenPack = [[None, None]]
   \<and> resolveOperandPack exGenBB exGenPack exOPHi
   \<and> getOrderedValues exGenPack = exOPHi
   \<and> exOPHi \<in> set (UnresolvedPacks exG2) \<and> exOPHi \<notin> set (UnresolvedPacks exG3)
   \<and> (1::real) = getCost exGenPack + real (0 + 0 + 0)"
    using advanceInplace_pack_gather[OF exGCommit3 typedG] exGCommit3
    by (simp add: exG_defs isStore_def resolveOperandPack_def isProducedLane_def inBB_def)
  show ?thesis using 1 2 by blast
qed




text \<open>
  Claim C9. Committing a store pack charges no extract cost and no gather cost and
  resolves no operand pack: in a frontier reached by any sequence of the three
  transitions, no lane of the pack is an unresolved scalar, the cost returned is the cost
  of the pack and the insert costs of its operand pack, and every operand pack that was
  unresolved still is. (A store has no user and is an operand of no instruction.)
\<close>

theorem store_pack_commit:
  assumes wf: "storesUnused bb" and re: "reachable bb T F" and st: "isStore VP"
      and lanes: "\<forall>I. Some (Instr I) \<in> set (getOrderedValues VP) \<longrightarrow> isStoreInst bb I"
  shows "extractCostLanes T (UnresolvedScalars F) None 0 (getOrderedValues VP) = Some 0
       \<and> (\<forall>c F'. advanceInplace_pack bb T F VP = Some (c, F') \<longrightarrow>
             c = getCost VP
                   + real (\<Sum>OP\<leftarrow>getOperandPacks VP.
                              operandInsertCost bb T (the (getVectorTypeOP bb OP)) 0 OP)
             \<and> mset (UnresolvedPacks F) \<subseteq># mset (UnresolvedPacks F'))"
proof (intro conjI allI impI)
  show ex0: "extractCostLanes T (UnresolvedScalars F) None 0 (getOrderedValues VP) = Some 0"
    using reachable_no_store_scalar[OF wf re] lanes
    by (intro extractCostLanes_none) auto
  fix c F' assume step: "advanceInplace_pack bb T F VP = Some (c, F')"
  from step obtain ExtractCost Replaced GatherCost Ids InsertCost added where
    ex: "extractCostLanes T (UnresolvedScalars F) (if isStore VP then None else getVectorTypeVP bb VP) 0
        (getOrderedValues VP) = Some ExtractCost" and
    ga: "(if isStore VP then Some (0, []) else gatherPacks bb T F' VP 0 (UnresolvedPacks F)) = Some (GatherCost, Ids)" and
    ic: "InsertCost = (\<Sum>OP\<leftarrow>getOperandPacks VP. operandInsertCost bb T (the (getVectorTypeOP bb OP)) 0 OP)" and
    up: "UnresolvedPacks F' = sortPacks bb (remove_vec (UnresolvedPacks F @ added) Ids)" and
    c: "c = getCost VP + real (ExtractCost + GatherCost + InsertCost)"
    by (rule advanceInplace_pack_Some)
  from ex ex0 st have e: "ExtractCost = 0" by simp
  from ga st have g: "GatherCost = 0" "Ids = []" by simp_all
  show "c = getCost VP + real (\<Sum>OP\<leftarrow>getOperandPacks VP.
                              operandInsertCost bb T (the (getVectorTypeOP bb OP)) 0 OP)"
    using c e g ic by simp
  show "mset (UnresolvedPacks F) \<subseteq># mset (UnresolvedPacks F')"
    using up g by (simp add: sortPacks_def)
qed

theorem store_pack_commit_witness:
  "storesUnused exGenBB \<and> reachable exGenBB exTTI exG1 \<and> isStore exStoreLo
   \<and> UnresolvedPacks exG1 = [exOPHi]
   \<and> advanceInplace_pack exGenBB exTTI exG1 exStoreLo = Some (1, exG2)
   \<and> extractCostLanes exTTI (UnresolvedScalars exG1) None 0 (getOrderedValues exStoreLo) = Some 0
   \<and> (1::real) = getCost exStoreLo + real (0::nat)
   \<and> mset (UnresolvedPacks exG1) \<subseteq># mset (UnresolvedPacks exG2)"
proof -
  have st: "isStore exStoreLo" by (simp add: isStore_def exStoreLo_def)
  have lanes: "\<forall>I. Some (Instr I) \<in> set (getOrderedValues exStoreLo) \<longrightarrow> isStoreInst exGenBB I"
    by (auto simp: exStoreLo_def exGenBB_def)
  have up: "UnresolvedPacks exG1 = [exOPHi]" by (simp add: exG1_def)
  note w = store_pack_commit[OF exGStoresUnused exGReachable1 st lanes]
  have 1: "extractCostLanes exTTI (UnresolvedScalars exG1) None 0 (getOrderedValues exStoreLo) = Some 0"
    using w by simp
  have 2: "mset (UnresolvedPacks exG1) \<subseteq># mset (UnresolvedPacks exG2)"
    using w exGCommit2 by blast
  have 3: "(1::real) = getCost exStoreLo + real (0::nat)" by (simp add: exStoreLo_def)
  show ?thesis
    using exGStoresUnused exGReachable1 st up exGCommit2 1 2 3 by blast
qed

section \<open>Verification: the node factory and the search loop\<close>

lemma isEqual_refl [simp]: "isEqual F F"
  by (simp add: isEqual_def)

lemma isEqual_key: "isEqual F1 F2 \<Longrightarrow> isEqual K F1 = isEqual K F2"
  by (auto simp: isEqual_def)

lemma findNode_cong: "isEqual F1 F2 \<Longrightarrow> findNode M F1 = findNode M F2"
  unfolding findNode_def by (simp add: isEqual_key[of F1 F2])

lemma findNode_append:
  "findNode (M @ M') F = (case findNode M F of Some e \<Rightarrow> Some e | None \<Rightarrow> findNode M' F)"
  unfolding findNode_def by (induction M) auto

lemma findNode_single: "findNode [(F, N)] F = Some (F, N)"
  by (simp add: findNode_def)

lemma findNode_Some_mem: "findNode M F = Some (K, N) \<Longrightarrow> (K, N) \<in> set M \<and> isEqual K F"
  unfolding findNode_def by (induction M) (auto split: if_splits)

lemma wfFactory_empty: "wfFactory emptyFactory"
  by (simp add: wfFactory_def emptyFactory_def)

lemma getNode_wf:
  assumes "wfFactory Fac" and "getNode Fac F = Some (N, Fac')"
  shows "wfFactory Fac'" and "ownsNode Fac' F N"
    and "\<And>G M. ownsNode Fac G M \<Longrightarrow> ownsNode Fac' G M"
proof -
  show "wfFactory Fac'"
    using assms
    by (fastforce simp: getNode_def wfFactory_def Let_def nth_append split: option.splits if_splits)
  show "ownsNode Fac' F N"
    using assms
    by (auto simp: getNode_def ownsNode_def Let_def findNode_append findNode_single
             split: option.splits if_splits)
  show "\<And>G M. ownsNode Fac G M \<Longrightarrow> ownsNode Fac' G M"
    using assms
    by (auto simp: getNode_def ownsNode_def Let_def findNode_append
             split: option.splits if_splits)
qed

lemma getNodePP_wf:
  assumes "wfFactory Fac"
  shows "wfFactory (snd (getNodePP Fac F PP))"
    and "\<And>G M. ownsNode Fac G M \<Longrightarrow> ownsNode (snd (getNodePP Fac F PP)) G M"
  using assms
  by (auto simp: getNodePP_def wfFactory_def ownsNode_def nth_append)

lemma getNodes_wf:
  "wfFactory Fac \<Longrightarrow> getNodes Fac rs = Some Fac' \<Longrightarrow>
     wfFactory Fac' \<and> (\<forall>G M. ownsNode Fac G M \<longrightarrow> ownsNode Fac' G M)"
proof (induction rs arbitrary: Fac)
  case Nil
  then show ?case by simp
next
  case (Cons r rs)
  show ?case
  proof (cases r)
    case (GetNode Frt)
    with Cons.prems obtain N Fac1 where g: "getNode Fac Frt = Some (N, Fac1)"
      and rest: "getNodes Fac1 rs = Some Fac'"
      by (auto split: option.splits)
    from getNode_wf[OF Cons.prems(1) g] Cons.IH[OF _ rest] show ?thesis by blast
  next
    case (GetNodePP Frt PP)
    with Cons.prems have rest: "getNodes (snd (getNodePP Fac Frt PP)) rs = Some Fac'" by simp
    from getNodePP_wf[OF Cons.prems(1), where F=Frt and PP=PP] Cons.IH[OF _ rest] show ?thesis by blast
  qed
qed

lemma getNode_owned:
  assumes "wfFactory Fac" and "ownsNode Fac F N"
  shows "getNode Fac F = Some (N, Fac)"
proof -
  from assms(2) obtain K where f: "findNode (FrontierToNodeMap Fac) F = Some (K, N)"
    by (auto simp: ownsNode_def)
  from findNode_Some_mem[OF f] assms(1) have "getPartialPack (Nodes Fac ! N) = None"
    by (auto simp: wfFactory_def)
  then show ?thesis using f by (simp add: getNode_def)
qed

lemma exEqual: "isEqual exF1 exF1u"
  by (simp add: isEqual_def exF1u_def)

lemma exGetNode0: "getNodes (emptyFactory :: unit UCTNodeFactory) [GetNode exF2] =
    Some \<lparr> FrontierToNodeMap = [(exF2, 0)], Nodes = [\<lparr> nodeFrt = exF2, getPartialPack = None \<rparr>],
           Frontiers = [exF2] \<rparr>"
  by (simp add: getNode_def emptyFactory_def findNode_def)

lemma exNotEqual: "\<not> isEqual exF2 exF1"
  by (simp add: isEqual_def exF1_def exF2_def)

lemma exGetNode1: "getNode \<lparr> FrontierToNodeMap = [(exF2, 0)], Nodes = [\<lparr> nodeFrt = exF2, getPartialPack = None \<rparr>],
           Frontiers = [exF2] \<rparr> exF1 =
    Some (1, \<lparr> FrontierToNodeMap = [(exF2, 0), (exF1, 1)],
               Nodes = [\<lparr> nodeFrt = exF2, getPartialPack = None \<rparr>, \<lparr> nodeFrt = exF1, getPartialPack = (None :: unit option) \<rparr>],
               Frontiers = [exF2, exF1] \<rparr>)"
  by (simp add: getNode_def findNode_def exNotEqual)

lemma exGetNode2: "getNodes \<lparr> FrontierToNodeMap = [(exF2, 0), (exF1, 1)],
               Nodes = [\<lparr> nodeFrt = exF2, getPartialPack = None \<rparr>, \<lparr> nodeFrt = exF1, getPartialPack = None \<rparr>],
               Frontiers = [exF2, exF1] \<rparr> [GetNodePP exF1 ()] =
    Some \<lparr> FrontierToNodeMap = [(exF2, 0), (exF1, 1)],
               Nodes = [\<lparr> nodeFrt = exF2, getPartialPack = None \<rparr>, \<lparr> nodeFrt = exF1, getPartialPack = None \<rparr>,
                        \<lparr> nodeFrt = exF1, getPartialPack = Some () \<rparr>],
               Frontiers = [exF2, exF1] \<rparr>"
  by (simp add: getNodePP_def)

text \<open>
  Claim C10. In a factory built by any calls of \<open>getNode\<close>, once \<open>getNode\<close> has returned a
  node for the frontier \<open>F1\<close>, it returns the same pointer for every frontier that compares
  equal to \<open>F1\<close>, whatever calls come in between, and creates nothing: a frontier state
  owns at most one node.
\<close>

theorem getNode_same_node:
  assumes built: "getNodes emptyFactory rs0 = Some Fac"
      and first: "getNode Fac F1 = Some (N1, Fac1)"
      and later: "getNodes Fac1 rs = Some Fac2"
      and eq: "isEqual F1 F2"
  shows "getNode Fac2 F2 = Some (N1, Fac2)"
proof -
  have wf: "wfFactory Fac" using getNodes_wf[OF wfFactory_empty built] by simp
  have wf1: "wfFactory Fac1" and own1: "ownsNode Fac1 F1 N1"
    using getNode_wf[OF wf first] by simp_all
  have wf2: "wfFactory Fac2" and own2: "ownsNode Fac2 F1 N1"
    using getNodes_wf[OF wf1 later] own1 by simp_all
  have "ownsNode Fac2 F2 N1"
    using own2 findNode_cong[OF eq] by (simp add: ownsNode_def)
  then show ?thesis using wf2 by (rule getNode_owned[rotated])
qed

theorem getNode_same_node_witness:
  "isEqual exF1 exF1u \<and> exF1 \<noteq> exF1u \<and>
   getNode \<lparr> FrontierToNodeMap = [(exF2, 0), (exF1, 1)],
               Nodes = [\<lparr> nodeFrt = exF2, getPartialPack = None \<rparr>, \<lparr> nodeFrt = exF1, getPartialPack = None \<rparr>,
                        \<lparr> nodeFrt = exF1, getPartialPack = Some () \<rparr>],
               Frontiers = [exF2, exF1] \<rparr> exF1u =
   Some (1, \<lparr> FrontierToNodeMap = [(exF2, 0), (exF1, 1)],
               Nodes = [\<lparr> nodeFrt = exF2, getPartialPack = None \<rparr>, \<lparr> nodeFrt = exF1, getPartialPack = None \<rparr>,
                        \<lparr> nodeFrt = exF1, getPartialPack = Some () \<rparr>],
               Frontiers = [exF2, exF1] \<rparr>)"
proof -
  have "exF1 \<noteq> exF1u"
    by (simp add: exF1u_def exF1_def)
  then show ?thesis
    using exEqual getNode_same_node[OF exGetNode0 exGetNode1 exGetNode2 exEqual] by simp
qed

text \<open>
  Claim C6. When the root is expanded and has exactly one transition, \<open>run\<close> executes
  exactly one iteration, whatever the number of iterations asked for.
\<close>

theorem run_forced_move:
  assumes "expanded st" and "numTransitions st = 1"
  shows "run expanded numTransitions iteration NumIters st = (1, iteration st)"
  using assms by (simp add: run_def runLoop.simps)

theorem run_forced_move_witness:
  "run (\<lambda>st. True) (\<lambda>st. 1) Suc 100 (0::nat) = (1, 1)"
  using run_forced_move[of "\<lambda>st. True" "0::nat" "\<lambda>st. 1" Suc 100] by simp

section \<open>Verification: seed memory packs\<close>

lemma checkIndependence_iff:
  "checkIndependence Pkr Next (set acc) (\<Union>I \<in> set acc. LDA_getDepended Pkr I)
     \<longleftrightarrow> (\<forall>a \<in> set acc. independent Pkr a Next)"
  by (auto simp: checkIndependence_def independent_def)

lemma extendsChain_full:
  "length acc = VL \<Longrightarrow> extendsChain Pkr IsStore VL acc xs \<longleftrightarrow> xs = acc"
  by (auto simp: extendsChain_def)

lemma extendsChain_step:
  assumes ne: "acc \<noteq> []" and lt: "length acc < VL"
  shows "extendsChain Pkr IsStore VL acc xs \<longleftrightarrow>
           (\<exists>Next \<in> set (AccessDAG Pkr IsStore (last acc)).
              (\<forall>a \<in> set acc. independent Pkr a Next) \<and>
              extendsChain Pkr IsStore VL (acc @ [Next]) xs)"
proof
  assume e: "extendsChain Pkr IsStore VL acc xs"
  let ?n = "length acc"
  from e have len: "length xs = VL" and tk: "take ?n xs = acc"
    and st: "\<And>i. ?n \<le> i \<Longrightarrow> i < VL \<Longrightarrow>
           xs ! i \<in> set (AccessDAG Pkr IsStore (xs ! (i - 1))) \<and>
           (\<forall>j < i. independent Pkr (xs ! j) (xs ! i))"
    by (auto simp: extendsChain_def)
  have nth_acc: "\<And>j. j < ?n \<Longrightarrow> xs ! j = acc ! j"
    using tk by (metis nth_take)
  have last: "xs ! (?n - 1) = last acc"
    using ne nth_acc[of "?n - 1"] by (simp add: last_conv_nth)
  have tk1: "take (Suc ?n) xs = acc @ [xs ! ?n]"
    using lt len tk by (simp add: take_Suc_conv_app_nth)
  have 1: "xs ! ?n \<in> set (AccessDAG Pkr IsStore (last acc))"
    using st[of ?n] lt last by simp
  have 2: "\<forall>a \<in> set acc. independent Pkr a (xs ! ?n)"
  proof
    fix a assume "a \<in> set acc"
    then obtain j where "j < ?n" "acc ! j = a" by (auto simp: in_set_conv_nth)
    then show "independent Pkr a (xs ! ?n)"
      using st[of ?n] lt nth_acc[of j] by auto
  qed
  have 3: "extendsChain Pkr IsStore VL (acc @ [xs ! ?n]) xs"
    unfolding extendsChain_def using len tk1 st by auto
  from 1 2 3 show "\<exists>Next \<in> set (AccessDAG Pkr IsStore (last acc)).
              (\<forall>a \<in> set acc. independent Pkr a Next) \<and>
              extendsChain Pkr IsStore VL (acc @ [Next]) xs"
    by blast
next
  assume "\<exists>Next \<in> set (AccessDAG Pkr IsStore (last acc)).
              (\<forall>a \<in> set acc. independent Pkr a Next) \<and>
              extendsChain Pkr IsStore VL (acc @ [Next]) xs"
  then obtain Next where nx: "Next \<in> set (AccessDAG Pkr IsStore (last acc))"
    and ind: "\<forall>a \<in> set acc. independent Pkr a Next"
    and e: "extendsChain Pkr IsStore VL (acc @ [Next]) xs"
    by blast
  let ?n = "length acc"
  from e have len: "length xs = VL" and tk1: "take (Suc ?n) xs = acc @ [Next]"
    and st: "\<And>i. Suc ?n \<le> i \<Longrightarrow> i < VL \<Longrightarrow>
           xs ! i \<in> set (AccessDAG Pkr IsStore (xs ! (i - 1))) \<and>
           (\<forall>j < i. independent Pkr (xs ! j) (xs ! i))"
    by (auto simp: extendsChain_def)
  have nth1: "\<And>j. j < Suc ?n \<Longrightarrow> xs ! j = (acc @ [Next]) ! j"
    using tk1 by (metis nth_take)
  have tk: "take ?n xs = acc"
    using tk1 by (metis append_eq_conv_conj length_append_singleton take_take min.absorb1 le_add2 plus_1_eq_Suc)
  have xn: "xs ! ?n = Next" using nth1[of ?n] by simp
  have last: "xs ! (?n - 1) = last acc"
    using ne nth1[of "?n - 1"] by (simp add: last_conv_nth nth_append)
  have at_n: "xs ! ?n \<in> set (AccessDAG Pkr IsStore (xs ! (?n - 1))) \<and>
           (\<forall>j < ?n. independent Pkr (xs ! j) (xs ! ?n))"
  proof (intro conjI allI impI)
    show "xs ! ?n \<in> set (AccessDAG Pkr IsStore (xs ! (?n - 1)))"
      using nx xn last by simp
    fix j assume "j < ?n"
    then have "xs ! j = acc ! j" "acc ! j \<in> set acc"
      using nth1[of j] by (simp_all add: nth_append)
    then show "independent Pkr (xs ! j) (xs ! ?n)" using ind xn by simp
  qed
  show "extendsChain Pkr IsStore VL acc xs"
    unfolding extendsChain_def
  proof (intro conjI allI impI)
    show "length xs = VL" by (rule len)
    show "take ?n xs = acc" by (rule tk)
    fix i assume i: "?n \<le> i \<and> i < VL"
    show "xs ! i \<in> set (AccessDAG Pkr IsStore (xs ! (i - 1)))"
      using i at_n st[of i] by (cases "i = ?n") auto
    fix j assume "j < i"
    then show "independent Pkr (xs ! j) (xs ! i)"
      using i at_n st[of i] by (cases "i = ?n") auto
  qed
qed

lemma Enumerate_set:
  "acc \<noteq> [] \<Longrightarrow> length acc \<le> VL \<Longrightarrow>
     set (Enumerate Pkr IsStore VL acc (set acc) (\<Union>I \<in> set acc. LDA_getDepended Pkr I))
       = packOfChain Pkr IsStore ` {xs. extendsChain Pkr IsStore VL acc xs}"
proof (induction "VL - length acc" arbitrary: acc)
  case 0
  then have "length acc = VL" by simp
  then show ?case
    by (simp add: Enumerate.simps[of _ _ _ acc] extendsChain_full packOfChain_def)
next
  case (Suc n)
  then have lt: "length acc < VL" by simp
  have IH: "\<And>Next. set (Enumerate Pkr IsStore VL (acc @ [Next]) (insert Next (set acc))
                 ((\<Union>I \<in> set acc. LDA_getDepended Pkr I) \<union> LDA_getDepended Pkr Next))
             = packOfChain Pkr IsStore ` {xs. extendsChain Pkr IsStore VL (acc @ [Next]) xs}"
  proof -
    fix Next
    have "n = VL - length (acc @ [Next])" using Suc.hyps(2) by simp
    from Suc.hyps(1)[OF this] lt
    have "set (Enumerate Pkr IsStore VL (acc @ [Next]) (set (acc @ [Next]))
                 (\<Union>I \<in> set (acc @ [Next]). LDA_getDepended Pkr I))
             = packOfChain Pkr IsStore ` {xs. extendsChain Pkr IsStore VL (acc @ [Next]) xs}"
      by simp
    moreover have "(\<Union>I \<in> set (acc @ [Next]). LDA_getDepended Pkr I)
            = (\<Union>I \<in> set acc. LDA_getDepended Pkr I) \<union> LDA_getDepended Pkr Next"
      by auto
    ultimately show "set (Enumerate Pkr IsStore VL (acc @ [Next]) (insert Next (set acc))
                 ((\<Union>I \<in> set acc. LDA_getDepended Pkr I) \<union> LDA_getDepended Pkr Next))
             = packOfChain Pkr IsStore ` {xs. extendsChain Pkr IsStore VL (acc @ [Next]) xs}"
      by simp
  qed
  have "set (Enumerate Pkr IsStore VL acc (set acc) (\<Union>I \<in> set acc. LDA_getDepended Pkr I))
        = (\<Union>Next \<in> {Next \<in> set (AccessDAG Pkr IsStore (last acc)). \<forall>a \<in> set acc. independent Pkr a Next}.
             packOfChain Pkr IsStore ` {xs. extendsChain Pkr IsStore VL (acc @ [Next]) xs})"
    using lt
    by (subst Enumerate.simps) (auto simp: IH checkIndependence_iff)
  also have "\<dots> = packOfChain Pkr IsStore ` {xs. extendsChain Pkr IsStore VL acc xs}"
    using extendsChain_step[OF Suc.prems(1) lt, of Pkr IsStore] by blast
  finally show ?case .
qed

lemma seedChains_extends:
  "0 < VL \<Longrightarrow> seedChains Pkr IsStore A VL = {xs. extendsChain Pkr IsStore VL [A] xs}"
proof (intro set_eqI iffI)
  fix xs assume vl: "0 < VL" and "xs \<in> seedChains Pkr IsStore A VL"
  then have len: "length xs = VL" and ne: "xs \<noteq> []" and hd: "hd xs = A"
    and ch: "isChain (AccessDAG Pkr IsStore) xs" and pi: "pairwiseIndependent Pkr xs"
    by (auto simp: seedChains_def)
  have "take 1 xs = [A]" using ne hd by (cases xs) auto
  moreover have "\<And>i. 1 \<le> i \<Longrightarrow> i < VL \<Longrightarrow> xs ! i \<in> set (AccessDAG Pkr IsStore (xs ! (i - 1)))"
  proof -
    fix i :: nat assume "1 \<le> i" "i < VL"
    then obtain k where "i = Suc k" by (cases i) auto
    then show "xs ! i \<in> set (AccessDAG Pkr IsStore (xs ! (i - 1)))"
      using ch \<open>i < VL\<close> len by (auto simp: isChain_def)
  qed
  moreover have "\<And>i j. i < VL \<Longrightarrow> j < i \<Longrightarrow> independent Pkr (xs ! j) (xs ! i)"
    using pi len by (auto simp: pairwiseIndependent_def)
  ultimately show "xs \<in> {xs. extendsChain Pkr IsStore VL [A] xs}"
    using len by (auto simp: extendsChain_def)
next
  fix xs assume vl: "0 < VL" and "xs \<in> {xs. extendsChain Pkr IsStore VL [A] xs}"
  then have len: "length xs = VL" and tk: "take 1 xs = [A]"
    and st: "\<And>i. 1 \<le> i \<Longrightarrow> i < VL \<Longrightarrow>
           xs ! i \<in> set (AccessDAG Pkr IsStore (xs ! (i - 1))) \<and>
           (\<forall>j < i. independent Pkr (xs ! j) (xs ! i))"
    by (auto simp: extendsChain_def)
  have ne: "xs \<noteq> []" using len vl by auto
  have hd: "hd xs = A" using tk ne by (cases xs) auto
  have "isChain (AccessDAG Pkr IsStore) xs"
    unfolding isChain_def using st len by (metis One_nat_def diff_Suc_1 le_add1 plus_1_eq_Suc)
  moreover have "pairwiseIndependent Pkr xs"
    unfolding pairwiseIndependent_def
  proof (intro allI impI)
    fix i j assume ij: "i < j \<and> j < length xs"
    then have "1 \<le> j" "j < VL" using len by auto
    from st[OF this] ij show "independent Pkr (xs ! i) (xs ! j)" by simp
  qed
  ultimately show "xs \<in> seedChains Pkr IsStore A VL"
    using len ne hd by (simp add: seedChains_def)
qed

lemma getSeedMemPacks_set:
  "0 < VL \<Longrightarrow> set (getSeedMemPacks Pkr IsStore A VL) = packOfChain Pkr IsStore ` seedChains Pkr IsStore A VL"
  using Enumerate_set[of "[A]" VL Pkr IsStore]
  by (simp add: getSeedMemPacks_def seedChains_extends)

lemma enumerate_bb_set:
  "set (enumerate_bb bb Pkr) =
     (\<Union>A \<in> {A \<in> set (block bb). isLoadInst bb A}. \<Union>VL \<in> {2, 4, 8, 16}.
         packOfChain Pkr False ` seedChains Pkr False A VL)"
  by (auto simp: enumerate_bb_def getSeedMemPacks_set)

lemma improvePlan_Seeds_set:
  "set (improvePlan_Seeds bb Pkr) =
     (\<Union>A \<in> {A \<in> set (block bb). isStoreInst bb A}. \<Union>VL \<in> {2, 4, 8, 16, 32}.
         packOfChain Pkr True ` seedChains Pkr True A VL)"
  by (auto simp: improvePlan_Seeds_def getSeedMemPacks_set)

lemma exSeed: "getSeedMemPacks exPkr True 2 2 = [packOfChain exPkr True [2, 3]]"
  by (simp add: getSeedMemPacks_def Enumerate.simps exPkr_def AccessDAG_def checkIndependence_def
        packOfChain_def createMemPack_def insert_commute)

lemma exChain: "[0 ..< 32] \<in> seedChains exChainPkr False 0 32"
proof -
  have "isChain (AccessDAG exChainPkr False) [0 ..< 32]"
    unfolding isChain_def by (simp add: AccessDAG_def exChainPkr_def del: upt_rec_numeral upt_Suc)
  moreover have "pairwiseIndependent exChainPkr [0 ..< 32]"
    by (simp add: pairwiseIndependent_def independent_def exChainPkr_def)
  moreover have "[0 ..< 32::nat] \<noteq> []" "hd [0 ..< 32::nat] = 0" "length [0 ..< 32::nat] = 32"
    by (simp_all del: upt_rec_numeral upt_Suc)
  ultimately show ?thesis unfolding seedChains_def by blast
qed

lemma packOfChain_length:
  "createLoadPack Pkr = exMemPack Load \<Longrightarrow> length (getOrderedValues (packOfChain Pkr False xs)) = length xs"
  by (simp add: packOfChain_def createMemPack_def exMemPack_def)

text \<open>
  Claim C4, as amended. For every access \<open>A\<close> and lane count \<open>VL\<close>, \<open>getSeedMemPacks\<close> emits a
  pack for exactly the chains of \<open>VL\<close> accesses that start at \<open>A\<close>, follow the edges of the
  consecutive-access DAG and are pairwise independent. \<open>enumerate\<close> calls it for every load
  of the block with the lane counts 2, 4, 8 and 16; the seeds of \<open>improvePlan\<close> are its
  results for every store of the block with the lane counts 2, 4, 8, 16 and 32.
\<close>

theorem seed_mem_packs:
  assumes "0 < VL"
  shows "set (getSeedMemPacks Pkr IsStore A VL) = packOfChain Pkr IsStore ` seedChains Pkr IsStore A VL
   \<and> set (enumerate_bb bb Pkr) =
       (\<Union>A \<in> {A \<in> set (block bb). isLoadInst bb A}. \<Union>VL \<in> {2, 4, 8, 16}.
           packOfChain Pkr False ` seedChains Pkr False A VL)
   \<and> set (improvePlan_Seeds bb Pkr) =
       (\<Union>A \<in> {A \<in> set (block bb). isStoreInst bb A}. \<Union>VL \<in> {2, 4, 8, 16, 32}.
           packOfChain Pkr True ` seedChains Pkr True A VL)"
  by (intro conjI getSeedMemPacks_set[OF assms] enumerate_bb_set improvePlan_Seeds_set)

theorem seed_mem_packs_witness:
  "(0::nat) < 2
   \<and> getSeedMemPacks exPkr True 2 2 = [packOfChain exPkr True [2, 3]]
   \<and> {packOfChain exPkr True [2, 3]} = packOfChain exPkr True ` seedChains exPkr True 2 2"
proof -
  have h: "(0::nat) < 2" by simp
  from seed_mem_packs[OF h, of exPkr True 2 exBB]
  have "set (getSeedMemPacks exPkr True 2 2) = packOfChain exPkr True ` seedChains exPkr True 2 2"
    by (rule conjunct1)
  then show ?thesis using exSeed by simp
qed

text \<open>
  The claim C4 as stated, with the lane count 32 for every memory access, fails for
  loads: a chain of 32 consecutive, independent loads starts at the first load of the
  block, and \<open>enumerate\<close> emits no pack for it.
\<close>

theorem seed_mem_packs_counterexample:
  "0 \<in> set (block exChainBB) \<and> isLoadInst exChainBB 0
   \<and> [0 ..< 32] \<in> seedChains exChainPkr False 0 32
   \<and> packOfChain exChainPkr False [0 ..< 32] \<notin> set (enumerate_bb exChainBB exChainPkr)"
proof -
  have c: "createLoadPack exChainPkr = exMemPack Load" by (simp add: exChainPkr_def)
  have len: "length (getOrderedValues (packOfChain exChainPkr False [0 ..< 32])) = 32"
    unfolding packOfChain_length[OF c] by (simp del: upt_rec_numeral upt_Suc)
  have "packOfChain exChainPkr False [0 ..< 32] \<notin> set (enumerate_bb exChainBB exChainPkr)"
  proof
    assume "packOfChain exChainPkr False [0 ..< 32] \<in> set (enumerate_bb exChainBB exChainPkr)"
    then obtain A VL xs where "VL \<in> {2, 4, 8, 16::nat}" "xs \<in> seedChains exChainPkr False A VL"
      "packOfChain exChainPkr False [0 ..< 32] = packOfChain exChainPkr False xs"
      unfolding enumerate_bb_set by blast
    then have "length (getOrderedValues (packOfChain exChainPkr False [0 ..< 32])) \<in> {2, 4, 8, 16}"
      by (simp add: packOfChain_length[OF c] seedChains_def)
    then show False unfolding len by simp
  qed
  moreover have "0 \<in> set (block exChainBB)" "isLoadInst exChainBB 0"
    by (simp_all add: exChainBB_def del: upt_rec_numeral upt_Suc)
  ultimately show ?thesis using exChain by blast
qed

section \<open>Verification: the heuristic\<close>

lemma getCostValue_cong:
  "getScalarCost H = getScalarCost H' \<Longrightarrow> getCostValue n bb H V = getCostValue n bb H' V"
proof (induction n arbitrary: V)
  case 0
  then show ?case by (cases "(0::nat, bb, H, V)" rule: getCostValue.cases) auto
next
  case (Suc n)
  show ?case
  proof (cases V)
    case None
    then show ?thesis by simp
  next
    case (Some v)
    then show ?thesis using Suc by (cases v) (auto cong: map_cong)
  qed
qed

lemma insertionCost_cong:
  "getScalarCost H = getScalarCost H' \<Longrightarrow> insertionCost n bb H OP Ins = insertionCost n bb H' OP Ins"
  by (induction OP arbitrary: Ins) (auto simp: getCostValue_cong[of H H'] split: option.splits)

lemma Solution_update_cost: "solCost (Solution_update Sol New) = min (solCost Sol) (solCost New)"
  by (simp add: Solution_update_def min_def)

lemma sumOptions_mono:
  "list_all2 (rel_option (\<le>)) cs' cs \<Longrightarrow> rel_option (\<le>) (sumOptions cs') (sumOptions cs)"
proof (induction cs' cs rule: list_all2_induct)
  case Nil
  then show ?case by simp
next
  case (Cons c' cs' c cs)
  then show ?case
    by (cases c'; cases c; cases "sumOptions cs'"; cases "sumOptions cs") auto
qed

lemma packCost_mono:
  assumes "\<And>OP. costLe (slv' OP) (slv OP)"
  shows "rel_option (\<le>) (packCost slv' VP) (packCost slv VP)"
proof -
  have "list_all2 (rel_option (\<le>))
          (map (\<lambda>OP. map_option solCost (slv' OP)) (getOperandPacks VP))
          (map (\<lambda>OP. map_option solCost (slv OP)) (getOperandPacks VP))"
    unfolding list_all2_map1 list_all2_map2
  proof (rule list_all2_same[THEN iffD2], intro ballI)
    fix OP
    show "rel_option (\<le>) (map_option solCost (slv' OP)) (map_option solCost (slv OP))"
      using assms[of OP] by (cases "slv' OP"; cases "slv OP") (auto simp: costLe_def)
  qed
  from sumOptions_mono[OF this] show ?thesis
    unfolding packCost_def
    by (cases "sumOptions (map (\<lambda>OP. map_option solCost (slv' OP)) (getOperandPacks VP))";
        cases "sumOptions (map (\<lambda>OP. map_option solCost (slv OP)) (getOperandPacks VP))") auto
qed

lemma producerLoop_mono:
  assumes "\<And>VP. rel_option (\<le>) (cost' VP) (cost VP)"
  shows "solCost Sol' \<le> solCost Sol \<Longrightarrow>
         costLe (producerLoop cost' E VPs Sol') (producerLoop cost E VPs Sol)"
proof (induction VPs arbitrary: Sol' Sol)
  case Nil
  then show ?case by (simp add: costLe_def)
next
  case (Cons VP VPs)
  show ?case
  proof (cases "cost' VP")
    case None
    then have "cost VP = None" using assms[of VP] by (cases "cost VP") auto
    with None show ?thesis by (simp add: costLe_def)
  next
    case (Some c')
    then obtain c where c: "cost VP = Some c" "c' \<le> c" using assms[of VP] by (cases "cost VP") auto
    show ?thesis
      using Some c Cons.prems
      by (auto intro!: Cons.IH simp: Solution_update_cost min_def)
  qed
qed


lemma candidatePacksLoop_bounds:
  assumes wf: "\<forall>VP \<in> set VPs. isLoad VP \<longrightarrow> cost VP = Some (getProducingCost VP)"
      and acc: "\<forall>VP \<in> Visited. isLoad VP \<longrightarrow> solCost Sol \<le> candCost OP OPI E VP"
  shows "\<exists>Sol2. candidatePacksLoop cost OP OPI E VPs (Sol, Visited) = Some (Sol2, Visited \<union> set VPs)
          \<and> solCost Sol2 \<le> solCost Sol
          \<and> (\<forall>VP \<in> Visited \<union> set VPs. isLoad VP \<longrightarrow> solCost Sol2 \<le> candCost OP OPI E VP)
          \<and> (solCost Sol2 = solCost Sol \<or>
              (\<exists>VP \<in> set VPs. isLoad VP \<and> solCost Sol2 = candCost OP OPI E VP))"
  using assms
proof (induction VPs arbitrary: Sol Visited)
  case Nil
  then show ?case by simp
next
  case (Cons VP VPs)
  show ?case
  proof (cases "VP \<in> Visited \<or> \<not> isLoad VP")
    case True
    have acc': "\<forall>V \<in> insert VP Visited. isLoad V \<longrightarrow> solCost Sol \<le> candCost OP OPI E V"
      using True Cons.prems(2) by auto
    from Cons.IH[OF _ acc'] Cons.prems(1) obtain Sol2 where
      "candidatePacksLoop cost OP OPI E VPs (Sol, insert VP Visited) = Some (Sol2, insert VP Visited \<union> set VPs)"
      "solCost Sol2 \<le> solCost Sol"
      "\<forall>V \<in> insert VP Visited \<union> set VPs. isLoad V \<longrightarrow> solCost Sol2 \<le> candCost OP OPI E V"
      "solCost Sol2 = solCost Sol \<or> (\<exists>V \<in> set VPs. isLoad V \<and> solCost Sol2 = candCost OP OPI E V)"
      by auto
    then show ?thesis using True by (intro exI[of _ Sol2]) auto
  next
    case False
    then have c: "cost VP = Some (getProducingCost VP)" using Cons.prems(1) by simp
    let ?S = "Solution_update Sol (candidateSolution OP OPI E VP (getProducingCost VP))"
    have sc: "solCost ?S = min (solCost Sol) (candCost OP OPI E VP)"
      by (simp add: Solution_update_cost candCost_def)
    have acc': "\<forall>V \<in> insert VP Visited. isLoad V \<longrightarrow> solCost ?S \<le> candCost OP OPI E V"
      using Cons.prems(2) sc by auto
    from Cons.IH[OF _ acc'] Cons.prems(1) obtain Sol2 where
      "candidatePacksLoop cost OP OPI E VPs (?S, insert VP Visited) = Some (Sol2, insert VP Visited \<union> set VPs)"
      "solCost Sol2 \<le> solCost ?S"
      "\<forall>V \<in> insert VP Visited \<union> set VPs. isLoad V \<longrightarrow> solCost Sol2 \<le> candCost OP OPI E V"
      "solCost Sol2 = solCost ?S \<or> (\<exists>V \<in> set VPs. isLoad V \<and> solCost Sol2 = candCost OP OPI E V)"
      by auto
    then show ?thesis using False c sc
      by (intro exI[of _ Sol2]) (auto simp: min_def split: if_splits)
  qed
qed

lemma candidateLoop_bounds:
  assumes wf: "\<forall>VP \<in> set Packs. isLoad VP \<longrightarrow> cost VP = Some (getProducingCost VP)"
      and acc: "\<forall>VP \<in> Visited. isLoad VP \<longrightarrow> solCost Sol \<le> candCost OP OPI E VP"
  shows "\<exists>Sol2. candidateLoop cost Packs OP OPI E Ids (Sol, Visited)
                  = Some (Sol2, Visited \<union> visitedPacks Packs Ids)
          \<and> solCost Sol2 \<le> solCost Sol
          \<and> (\<forall>VP \<in> Visited \<union> visitedPacks Packs Ids. isLoad VP \<longrightarrow> solCost Sol2 \<le> candCost OP OPI E VP)
          \<and> (solCost Sol2 = solCost Sol \<or>
              (\<exists>VP \<in> visitedPacks Packs Ids. isLoad VP \<and> solCost Sol2 = candCost OP OPI E VP))"
  using acc
proof (induction Ids arbitrary: Sol Visited)
  case Nil
  then show ?case by (simp add: visitedPacks_def)
next
  case (Cons i Ids)
  have wf1: "\<forall>VP \<in> set (Inst2Packs Packs i). isLoad VP \<longrightarrow> cost VP = Some (getProducingCost VP)"
    using wf by (simp add: Inst2Packs_def)
  from candidatePacksLoop_bounds[OF wf1 Cons.prems] obtain Sol1 where
    1: "candidatePacksLoop cost OP OPI E (Inst2Packs Packs i) (Sol, Visited)
          = Some (Sol1, Visited \<union> set (Inst2Packs Packs i))"
       "solCost Sol1 \<le> solCost Sol"
       "\<forall>VP \<in> Visited \<union> set (Inst2Packs Packs i). isLoad VP \<longrightarrow> solCost Sol1 \<le> candCost OP OPI E VP"
       "solCost Sol1 = solCost Sol \<or>
          (\<exists>VP \<in> set (Inst2Packs Packs i). isLoad VP \<and> solCost Sol1 = candCost OP OPI E VP)"
    by blast
  from Cons.IH[OF 1(3)] obtain Sol2 where
    2: "candidateLoop cost Packs OP OPI E Ids (Sol1, Visited \<union> set (Inst2Packs Packs i))
          = Some (Sol2, Visited \<union> set (Inst2Packs Packs i) \<union> visitedPacks Packs Ids)"
       "solCost Sol2 \<le> solCost Sol1"
       "\<forall>VP \<in> Visited \<union> set (Inst2Packs Packs i) \<union> visitedPacks Packs Ids.
           isLoad VP \<longrightarrow> solCost Sol2 \<le> candCost OP OPI E VP"
       "solCost Sol2 = solCost Sol1 \<or>
          (\<exists>VP \<in> visitedPacks Packs Ids. isLoad VP \<and> solCost Sol2 = candCost OP OPI E VP)"
    by blast
  have v: "visitedPacks Packs (i # Ids) = set (Inst2Packs Packs i) \<union> visitedPacks Packs Ids"
    by (simp add: visitedPacks_def)
  show ?case
  proof (intro exI[of _ Sol2] conjI)
    show "candidateLoop cost Packs OP OPI E (i # Ids) (Sol, Visited)
            = Some (Sol2, Visited \<union> visitedPacks Packs (i # Ids))"
      using 1(1) 2(1) by (simp add: v Un_assoc)
    show "solCost Sol2 \<le> solCost Sol" using 1(2) 2(2) by simp
    show "\<forall>VP \<in> Visited \<union> visitedPacks Packs (i # Ids). isLoad VP \<longrightarrow> solCost Sol2 \<le> candCost OP OPI E VP"
      using 2(3) by (simp add: v Un_assoc)
    show "solCost Sol2 = solCost Sol \<or>
              (\<exists>VP \<in> visitedPacks Packs (i # Ids). isLoad VP \<and> solCost Sol2 = candCost OP OPI E VP)"
      using 1(4) 2(4) unfolding v by (metis UnCI)
  qed
qed

lemma visitedPacks_mono: "set Cs \<subseteq> set Cs' \<Longrightarrow> visitedPacks Cs Ids \<subseteq> visitedPacks Cs' Ids"
  by (auto simp: visitedPacks_def Inst2Packs_def)

lemma candidateLoop_mono:
  assumes sub: "set Cs \<subseteq> set Cs'"
      and wf': "\<forall>VP \<in> set Cs'. isLoad VP \<longrightarrow> cost' VP = Some (getProducingCost VP)"
      and wf: "\<forall>VP \<in> set Cs. isLoad VP \<longrightarrow> cost VP = Some (getProducingCost VP)"
      and le: "solCost Sol' \<le> solCost Sol"
  shows "costLe (map_option fst (candidateLoop cost' Cs' OP OPI E Ids (Sol', {})))
                (map_option fst (candidateLoop cost Cs OP OPI E Ids (Sol, {})))"
proof -
  from candidateLoop_bounds[OF wf', of "{}" Sol' OP OPI E Ids] obtain R' where
    r': "candidateLoop cost' Cs' OP OPI E Ids (Sol', {}) = Some (R', {} \<union> visitedPacks Cs' Ids)"
        "solCost R' \<le> solCost Sol'"
        "\<forall>VP \<in> {} \<union> visitedPacks Cs' Ids. isLoad VP \<longrightarrow> solCost R' \<le> candCost OP OPI E VP"
    by auto
  from candidateLoop_bounds[OF wf, of "{}" Sol OP OPI E Ids] obtain R where
    r: "candidateLoop cost Cs OP OPI E Ids (Sol, {}) = Some (R, {} \<union> visitedPacks Cs Ids)"
       "solCost R = solCost Sol \<or>
          (\<exists>VP \<in> visitedPacks Cs Ids. isLoad VP \<and> solCost R = candCost OP OPI E VP)"
    by auto
  have "solCost R' \<le> solCost R"
    using r(2)
  proof
    assume "solCost R = solCost Sol"
    then show ?thesis using r'(2) le by simp
  next
    assume "\<exists>VP \<in> visitedPacks Cs Ids. isLoad VP \<and> solCost R = candCost OP OPI E VP"
    then obtain VP where "VP \<in> visitedPacks Cs Ids" "isLoad VP" "solCost R = candCost OP OPI E VP"
      by blast
    then show ?thesis using r'(3) visitedPacks_mono[OF sub, of Ids] by auto
  qed
  then show ?thesis using r'(1) r(1) by (simp add: costLe_def)
qed

lemma packCost_load:
  "getOperandPacks VP = [] \<Longrightarrow> packCost slv VP = Some (getProducingCost VP)"
  by (simp add: packCost_def)


lemma solve_costLe:
  assumes sub: "set Cs \<subseteq> set Cs'"
      and wf: "\<forall>VP \<in> set Cs'. isLoad VP \<longrightarrow> getOperandPacks VP = []"
  shows "costLe (solve n bb (H\<lparr> Candidates := Some Cs' \<rparr>) OP)
                (solve n bb (H\<lparr> Candidates := Some Cs \<rparr>) OP)"
proof (induction n arbitrary: OP)
  case 0
  then show ?case by (simp add: costLe_def)
next
  case (Suc n)
  let ?H' = "H\<lparr> Candidates := Some Cs' \<rparr>" and ?H = "H\<lparr> Candidates := Some Cs \<rparr>"
  have ic: "insertionCost n bb ?H' OP {} = insertionCost n bb ?H OP {}"
    by (rule insertionCost_cong) simp
  have gc: "getCostValue n bb ?H' (hd OP) = getCostValue n bb ?H (hd OP)"
    by (rule getCostValue_cong) simp
  show ?case
  proof (cases "insertionCost n bb ?H OP {}")
    case None
    then show ?thesis using ic by (simp add: costLe_def)
  next
    case (Some Cost)
    note Cost = this
    show ?thesis
    proof (cases "Cost = 0")
      case True
      then show ?thesis using ic Cost by (simp add: costLe_def)
    next
      case False
      note nz = this
      show ?thesis
      proof (cases "getCostValue n bb ?H (hd OP)")
        case None
        then show ?thesis using ic gc Cost nz by (simp add: costLe_def)
      next
        case (Some c0)
        define Sol where "Sol = (if is_splat OP \<and> Cost > c0 + C_Splat
                           then \<lparr> solCost = c0 + C_Splat, solPacks = [] \<rparr>
                           else \<lparr> solCost = Cost, solPacks = [] \<rparr>)"
        define E where "E = (if dedup H OP \<noteq> OP then C_Shuffle else 0)"
        define OPI where "OPI = getProducerInfo H (dedup H OP)"
        define P' where "P' = producerLoop (packCost (solve n bb ?H')) E (getProducers OPI) Sol"
        define P where "P = producerLoop (packCost (solve n bb ?H)) E (getProducers OPI) Sol"
        have s': "solve (Suc n) bb ?H' OP =
                   (case P' of None \<Rightarrow> None
                    | Some Sol1 \<Rightarrow> map_option fst
                        (candidateLoop (packCost (solve n bb ?H')) Cs' OP OPI E
                           (set_bits bb (opiElements OPI)) (Sol1, {})))"
          using ic gc Cost nz Some
          by (simp add: Let_def Sol_def E_def OPI_def P'_def split: option.splits)
        have s: "solve (Suc n) bb ?H OP =
                   (case P of None \<Rightarrow> None
                    | Some Sol1 \<Rightarrow> map_option fst
                        (candidateLoop (packCost (solve n bb ?H)) Cs OP OPI E
                           (set_bits bb (opiElements OPI)) (Sol1, {})))"
          using Cost nz Some
          by (simp add: Let_def Sol_def E_def OPI_def P_def split: option.splits)
        have pc: "\<And>VP. rel_option (\<le>) (packCost (solve n bb ?H') VP) (packCost (solve n bb ?H) VP)"
          by (rule packCost_mono) (rule Suc.IH)
        have PP: "costLe P' P"
          unfolding P'_def P_def by (rule producerLoop_mono[OF pc]) simp
        have wf1': "\<forall>VP \<in> set Cs'. isLoad VP \<longrightarrow> packCost (solve n bb ?H') VP = Some (getProducingCost VP)"
          using wf by (simp add: packCost_load)
        have wf1: "\<forall>VP \<in> set Cs. isLoad VP \<longrightarrow> packCost (solve n bb ?H) VP = Some (getProducingCost VP)"
          using wf sub by (auto simp: packCost_load)
        show ?thesis
        proof (cases P)
          case None
          then have "P' = None" using PP by (cases P') (auto simp: costLe_def)
          then show ?thesis using None s s' by (simp add: costLe_def)
        next
          case (Some Sol1)
          then obtain Sol1' where p': "P' = Some Sol1'" and le: "solCost Sol1' \<le> solCost Sol1"
            using PP by (cases P') (auto simp: costLe_def)
          show ?thesis
            unfolding s s' Some p' option.case
            by (rule candidateLoop_mono[OF sub wf1' wf1 le])
        qed
      qed
    qed
  qed
qed

lemma exCostValue: "getCostValue (Suc 0) exBB exH (Some (Instr 0)) = Some 1"
  "getCostValue (Suc 0) exBB exH (Some (Instr (Suc 0))) = Some 1"
  by (simp_all add: exBB_def exH_def inBB_def)

lemma exCostValue': "getCostValue (Suc 0) exBB (exH\<lparr> Candidates := C \<rparr>) V = getCostValue (Suc 0) exBB exH V"
  by (rule getCostValue_cong) simp

lemma exInsertion: "insertionCost (Suc 0) exBB (exH\<lparr> Candidates := C \<rparr>) exOP {} = Some 6"
  by (simp add: exCostValue' exCostValue exOP_def isConstantLane_def C_Insert_def
        del: getCostValue.simps)

lemma exHd: "getCostValue (Suc 0) exBB (exH\<lparr> Candidates := C \<rparr>) (hd exOP) = Some 1"
  by (simp add: exCostValue' exCostValue exOP_def del: getCostValue.simps)

lemma exCand: "packCost slv exLoadPack = Some 1"
  by (simp add: packCost_def exLoadPack_def)

lemma exLoadPack_simps:
  "isLoad exLoadPack" "getOrderedValues exLoadPack = [Some (Instr (Suc 0)), Some (Instr 0)]"
  "getElements exLoadPack = {0, Suc 0}"
  by (simp_all add: exLoadPack_def isLoad_def)

lemma exBits: "set_bits exBB {0, Suc 0} = [0, Suc 0]"
proof -
  have "[0 ..< 4] = [0, Suc 0, 2, 3]" by (simp add: upt_conv_Cons)
  then show ?thesis by (simp add: set_bits_def exBB_def)
qed

lemma exSolve0: "solve 2 exBB (exH\<lparr> Candidates := Some [] \<rparr>) exOP = Some \<lparr> solCost = 6, solPacks = [] \<rparr>"
  apply (subst numeral_2_eq_2, subst solve.simps(2))
  apply (simp add: exInsertion exHd del: solve.simps)
  apply (simp add: C_Splat_def is_splat_def exOP_def exH_def exBits Inst2Packs_def Let_def
           del: solve.simps)
  done

lemma exSolve1: "solve 2 exBB (exH\<lparr> Candidates := Some [exLoadPack] \<rparr>) exOP
                   = Some \<lparr> solCost = 3 / 2, solPacks = [exLoadPack] \<rparr>"
  apply (subst numeral_2_eq_2, subst solve.simps(2))
  apply (simp add: exInsertion exHd del: solve.simps)
  apply (simp add: C_Splat_def is_splat_def exOP_def exH_def exBits Inst2Packs_def Let_def
           exCand exLoadPack_simps candidateSolution_def Solution_update_def C_Perm_def
           del: solve.simps)
  done

text \<open>
  Claim C7. \<open>solve\<close> is monotone in the candidates: with more candidate packs it returns
  exactly when it returns with fewer (within the same fuel), and then its cost is not
  higher. (A candidate load pack has no operand packs.)
\<close>

theorem solve_monotone:
  assumes "set Cs \<subseteq> set Cs'"
      and "\<forall>VP \<in> set Cs'. isLoad VP \<longrightarrow> getOperandPacks VP = []"
  shows "(solve n bb (H\<lparr> Candidates := Some Cs' \<rparr>) OP = None
            \<longleftrightarrow> solve n bb (H\<lparr> Candidates := Some Cs \<rparr>) OP = None)
       \<and> (\<forall>S' S. solve n bb (H\<lparr> Candidates := Some Cs' \<rparr>) OP = Some S'
                \<and> solve n bb (H\<lparr> Candidates := Some Cs \<rparr>) OP = Some S
              \<longrightarrow> solCost S' \<le> solCost S)"
  using solve_costLe[OF assms, of n bb H OP]
  by (cases "solve n bb (H\<lparr> Candidates := Some Cs' \<rparr>) OP";
      cases "solve n bb (H\<lparr> Candidates := Some Cs \<rparr>) OP") (auto simp: costLe_def)

theorem solve_monotone_witness:
  "set [] \<subseteq> set [exLoadPack]
   \<and> solve 2 exBB (exH\<lparr> Candidates := Some [exLoadPack] \<rparr>) exOP
        = Some \<lparr> solCost = 3 / 2, solPacks = [exLoadPack] \<rparr>
   \<and> solve 2 exBB (exH\<lparr> Candidates := Some [] \<rparr>) exOP = Some \<lparr> solCost = 6, solPacks = [] \<rparr>
   \<and> solCost \<lparr> solCost = 3 / 2, solPacks = [exLoadPack] \<rparr> \<le> solCost \<lparr> solCost = 6, solPacks = [] \<rparr>"
proof -
  have sub: "set [] \<subseteq> set [exLoadPack]" by simp
  have wf: "\<forall>VP \<in> set [exLoadPack]. isLoad VP \<longrightarrow> getOperandPacks VP = []"
    by (simp add: exLoadPack_def)
  from solve_monotone[OF sub wf, of 2 exBB exH exOP] exSolve0 exSolve1
  have "solCost \<lparr> solCost = 3 / 2, solPacks = [exLoadPack] \<rparr> \<le> solCost \<lparr> solCost = 6, solPacks = [] \<rparr>"
    by blast
  then show ?thesis using exSolve0 exSolve1 by simp
qed

section \<open>Verification: the bottom-up optimizer\<close>

lemma wellFormed_ids: "wellFormed bb \<Longrightarrow> i \<in> set (block bb) \<Longrightarrow> i < getNumValues bb"
  by (simp add: wellFormed_def)

lemma wellFormed_operand:
  assumes "wellFormed bb" "J \<in> set (block bb)" "Instr U \<in> set (users bb J)" "inBB bb U"
  shows "Instr J \<in> set (operands bb U)"
proof -
  obtain k where k: "k < length (block bb)" "block bb ! k = J"
    using assms(2) by (auto simp: in_set_conv_nth)
  have "\<forall>V \<in> set (users bb (block bb ! k)).
         case V of
           Instr U \<Rightarrow>
             (inBB bb U \<longrightarrow> Instr (block bb ! k) \<in> set (operands bb U)) \<and>
             (\<forall>m < length (block bb). block bb ! m = U \<and> \<not> isPHINode bb U \<longrightarrow> k < m)
         | _ \<Rightarrow> True"
    using assms(1) k(1) unfolding wellFormed_def by blast
  from bspec[OF this, of "Instr U"] show ?thesis
    using assms(3,4) k by simp
qed

lemma wellFormed_order:
  assumes "wellFormed bb" "k < length (block bb)" "m < length (block bb)"
    "Instr (block bb ! m) \<in> set (users bb (block bb ! k))" "\<not> isPHINode bb (block bb ! m)"
  shows "k < m"
proof -
  have "\<forall>V \<in> set (users bb (block bb ! k)).
         case V of
           Instr U \<Rightarrow>
             (inBB bb U \<longrightarrow> Instr (block bb ! k) \<in> set (operands bb U)) \<and>
             (\<forall>m < length (block bb). block bb ! m = U \<and> \<not> isPHINode bb U \<longrightarrow> k < m)
         | _ \<Rightarrow> True"
    using assms(1,2) unfolding wellFormed_def by blast
  from bspec[OF this, of "Instr (block bb ! m)"] show ?thesis
    using assms(3,4,5) by simp
qed

lemma freeUser_iff:
  "list_ex (isFreeUserInBB bb Free) us \<longleftrightarrow> (\<exists>U. Instr U \<in> set us \<and> inBB bb U \<and> U \<in> Free)"
proof -
  have "isFreeUserInBB bb Free V = (\<exists>U. V = Instr U \<and> inBB bb U \<and> U \<in> Free)" for V
    by (cases V) (simp_all add: isFreeUserInBB_def)
  then show ?thesis
    by (auto simp: list_ex_iff)
qed

lemma freezeOperands_eq:
  "freezeOperands bb Free ops Usable =
     Usable \<union> {OI. Instr OI \<in> set ops \<and> inBB bb OI \<and> OI \<in> Free
                    \<and> \<not> list_ex (isFreeUserInBB bb Free) (users bb OI)}"
proof (induction ops arbitrary: Usable)
  case Nil
  then show ?case by simp
next
  case (Cons v ops)
  show ?case by (cases v) (auto simp: Cons.IH)
qed

lemma Frontier_eq:
  "Frontier bb =
     \<lparr> BBIt = 0,
       UnresolvedScalars = {i \<in> set (block bb). \<exists>u. Instr u \<in> set (users bb i) \<and> \<not> inBB bb u},
       FreeInsts = {0 ..< getNumValues bb},
       UsableInsts = {i \<in> set (block bb).
                        (\<forall>u. Instr u \<in> set (users bb i) \<longrightarrow> \<not> inBB bb u) \<or> isPHINode bb i},
       UnresolvedPacks = [] \<rparr>"
  by (simp add: Frontier_def scanBlock_eq)

lemma Frontier_scalarInv:
  assumes "wellFormed bb"
  shows "scalarInv bb (Frontier bb)"
  unfolding scalarInv_def Frontier_eq
  using wellFormed_ids[OF assms]
  by (auto simp: freeUser_iff inBB_def)

lemma scalarize_step:
  assumes wf: "wellFormed bb" and inv: "scalarInv bb F" and I: "I \<in> UsableInsts F"
  shows "\<exists>F'. advanceInplace_inst bb T F I = Some (0, F') \<and> scalarInv bb F'
              \<and> FreeInsts F' = FreeInsts F - {I}"
proof -
  have IF: "I \<in> FreeInsts F" and IB: "I \<in> set (block bb)"
    using inv I by (auto simp: scalarInv_def)
  have UP: "UnresolvedPacks F = []" using inv by (simp add: scalarInv_def)
  define Free where "Free = FreeInsts F - {I}"
  define F' where "F' = (advanceBBIt bb
       (F\<lparr> FreeInsts := Free, UnresolvedScalars := UnresolvedScalars F - {I},
           UsableInsts := freezeOperands bb Free (operands bb I) (UsableInsts F - {I}) \<rparr>))
       \<lparr> UnresolvedScalars := markOperands bb Free (operands bb I) (UnresolvedScalars F - {I}),
         UnresolvedPacks := [] \<rparr>"
  have step: "advanceInplace_inst bb T F I = Some (0, F')"
    using IF UP
    by (simp add: advanceInplace_inst_def freezeOneInst_def Let_def F'_def Free_def
          sortPacks_def remove_vec_def)
  have fr: "FreeInsts F' = Free" "UnresolvedPacks F' = []"
    "UsableInsts F' = freezeOperands bb Free (operands bb I) (UsableInsts F - {I})"
    "UnresolvedScalars F' = markOperands bb Free (operands bb I) (UnresolvedScalars F - {I})"
    by (simp_all add: F'_def)
  have us: "UsableInsts F' \<subseteq> Free \<inter> set (block bb)"
    using inv unfolding fr freezeOperands_eq
    by (auto simp: scalarInv_def Free_def inBB_def)
  have sc: "UnresolvedScalars F' \<subseteq> Free \<inter> set (block bb)"
    using inv markOperands_subset[of bb Free "operands bb I" "UnresolvedScalars F - {I}"]
    unfolding fr
    by (auto simp: scalarInv_def Free_def inBB_def)
  have ub: "J \<in> UsableInsts F'"
    if J: "J \<in> Free" "J \<in> set (block bb)"
      and c: "isPHINode bb J \<or> \<not> list_ex (isFreeUserInBB bb Free) (users bb J)" for J
  proof (cases "isPHINode bb J \<or> \<not> list_ex (isFreeUserInBB bb (FreeInsts F)) (users bb J)")
    case True
    then have "J \<in> UsableInsts F"
      using inv J by (auto simp: scalarInv_def Free_def)
    then show ?thesis
      using J unfolding fr freezeOperands_eq by (auto simp: Free_def)
  next
    case False
    then have nf: "\<not> list_ex (isFreeUserInBB bb Free) (users bb J)"
      using c by simp
    from False obtain U where U: "Instr U \<in> set (users bb J)" "inBB bb U" "U \<in> FreeInsts F"
      by (auto simp: freeUser_iff)
    have "U = I"
      using nf U by (auto simp: freeUser_iff Free_def)
    then have "Instr J \<in> set (operands bb I)"
      using wellFormed_operand[OF wf J(2) U(1) U(2)] by simp
    then show ?thesis
      using J nf unfolding fr freezeOperands_eq by (simp add: inBB_def)
  qed
  have "scalarInv bb F'"
    unfolding scalarInv_def using us sc ub fr(1,2) by auto
  then show ?thesis
    using step fr(1) by (auto simp: Free_def)
qed

lemma usable_exists:
  assumes wf: "wellFormed bb" and inv: "scalarInv bb F" and ne: "UnresolvedScalars F \<noteq> {}"
  shows "UsableInsts F \<noteq> {}"
proof -
  define S where "S = {k. k < length (block bb) \<and> block bb ! k \<in> FreeInsts F}"
  have fin: "finite S" by (simp add: S_def)
  obtain I where "I \<in> UnresolvedScalars F" using ne by auto
  then have "I \<in> FreeInsts F" "I \<in> set (block bb)"
    using inv by (auto simp: scalarInv_def)
  then have "S \<noteq> {}"
    by (auto simp: S_def in_set_conv_nth)
  define k where "k = Max S"
  have kS: "k \<in> S" unfolding k_def using fin \<open>S \<noteq> {}\<close> by (rule Max_in)
  have kmax: "m \<le> k" if "m \<in> S" for m
    unfolding k_def using fin that by (rule Max_ge)
  define J where "J = block bb ! k"
  have J: "J \<in> FreeInsts F" "J \<in> set (block bb)" "k < length (block bb)"
    using kS by (auto simp: S_def J_def)
  show ?thesis
  proof (cases "isPHINode bb J \<or> \<not> list_ex (isFreeUserInBB bb (FreeInsts F)) (users bb J)")
    case True
    then have "J \<in> UsableInsts F"
      using inv J by (auto simp: scalarInv_def)
    then show ?thesis by auto
  next
    case False
    then obtain U where U: "Instr U \<in> set (users bb J)" "inBB bb U" "U \<in> FreeInsts F"
      by (auto simp: freeUser_iff)
    then obtain m where m: "m < length (block bb)" "block bb ! m = U"
      by (auto simp: inBB_def in_set_conv_nth)
    then have "m \<in> S" using U by (simp add: S_def)
    then have "m \<le> k" by (rule kmax)
    have "isPHINode bb U"
    proof (rule ccontr)
      assume "\<not> isPHINode bb U"
      then have "k < m"
        using wellFormed_order[OF wf J(3) m(1)] U(1) m(2) by (simp add: J_def)
      then show False using \<open>m \<le> k\<close> by simp
    qed
    then have "U \<in> UsableInsts F"
      using inv U by (auto simp: scalarInv_def inBB_def)
    then show ?thesis by auto
  qed
qed

lemma firstUsable_Some:
  assumes wf: "wellFormed bb" and inv: "scalarInv bb F" and ne: "UnresolvedScalars F \<noteq> {}"
  shows "\<exists>I. firstUsable bb F = Some I \<and> I \<in> UsableInsts F"
proof (cases "firstUsable bb F")
  case None
  obtain I where I: "I \<in> UsableInsts F"
    using usable_exists[OF assms] by auto
  then have "I \<in> set (block bb)" using inv by (auto simp: scalarInv_def)
  then have "I < getNumValues bb" using wellFormed_ids[OF wf] by simp
  then show ?thesis
    using None I by (auto simp: firstUsable_def find_None_iff)
next
  case (Some I)
  then show ?thesis
    by (auto simp: firstUsable_def find_Some_iff)
qed

lemma scalarizeAll_returns:
  assumes wf: "wellFormed bb"
  shows "scalarInv bb F \<Longrightarrow> card (FreeInsts F \<inter> set (block bb)) \<le> n
           \<Longrightarrow> \<exists>F'. scalarizeAll n bb T F c = Some (F', c)"
proof (induction n arbitrary: F)
  case 0
  then have "FreeInsts F \<inter> set (block bb) = {}" by simp
  then have "UnresolvedScalars F = {}" "UnresolvedPacks F = []"
    using "0.prems"(1) by (auto simp: scalarInv_def)
  then show ?case by (subst scalarizeAll.simps) simp
next
  case (Suc n)
  show ?case
  proof (cases "UnresolvedScalars F = {}")
    case True
    then show ?thesis
      using Suc.prems(1) by (subst scalarizeAll.simps) (simp add: scalarInv_def)
  next
    case False
    obtain I where I: "firstUsable bb F = Some I" "I \<in> UsableInsts F"
      using firstUsable_Some[OF wf Suc.prems(1) False] by auto
    obtain F1 where F1: "advanceInplace_inst bb T F I = Some (0, F1)" "scalarInv bb F1"
        "FreeInsts F1 = FreeInsts F - {I}"
      using scalarize_step[OF wf Suc.prems(1) I(2)] by auto
    have "I \<in> FreeInsts F \<inter> set (block bb)"
      using Suc.prems(1) I(2) by (auto simp: scalarInv_def)
    then have "card (FreeInsts F1 \<inter> set (block bb)) < card (FreeInsts F \<inter> set (block bb))"
      unfolding F1(3) by (intro psubset_card_mono) auto
    then have "card (FreeInsts F1 \<inter> set (block bb)) \<le> n"
      using Suc.prems(2) by simp
    from Suc.IH[OF F1(2) this] obtain F' where "scalarizeAll n bb T F1 c = Some (F', c)"
      by auto
    then show ?thesis
      using False I(1) F1(1) by (subst scalarizeAll.simps) (simp del: scalarizeAll.simps)
  qed
qed

lemma storeLoop_no_seed:
  "\<forall>SI \<in> set Stores. getSeedStorePack Pkr (buFrt st) SI VL = None
     \<Longrightarrow> storeLoop fuel bb T Pkr tryAdd VL Stores st = Some st"
  by (induction Stores) (simp_all add: seedStep_def)

lemma laneLoop_no_seed:
  "\<forall>VL \<in> set VLs. \<forall>SI \<in> set Stores. getSeedStorePack Pkr (buFrt st) SI VL = None
     \<Longrightarrow> laneLoop fuel bb T Pkr tryAdd VLs Stores st = Some st"
  by (induction VLs) (simp_all add: storeLoop_no_seed)

lemma DPSolver_solve_no_packs:
  "UnresolvedPacks Frt = [] \<Longrightarrow>
     DPSolver_solve (Suc n) bb T Pkr [] Frt =
       Some (\<lparr> dpCost = 0, dpVP = None \<rparr>, [(Frt, \<lparr> dpCost = 0, dpVP = None \<rparr>)])"
  by (simp add: lookupSolution_def estimateAllScalarCost_def findExtensionPacks2_def
        storeSolution_def)

lemma extendLoop_no_packs:
  "UnresolvedPacks (buFrt st) = [] \<Longrightarrow> buSolver st = [] \<Longrightarrow>
     extendLoop n (Suc m) bb T Pkr tryAdd st =
       Some (st\<lparr> buSolver := [(buFrt st, \<lparr> dpCost = 0, dpVP = None \<rparr>)] \<rparr>)"
  by (subst extendLoop.simps) (simp add: DPSolver_solve_no_packs del: DPSolver_solve.simps)

lemma exWellFormed: "wellFormed exBB"
  by (simp add: wellFormed_def exBB_def inBB_def All_less_Suc numeral_eq_Suc)

lemma exNoSeed: "2 \<le> VL \<Longrightarrow> getSeedStorePack exDepPkr (Frontier exBB) 2 VL = None"
  unfolding exFrontier
  by (subst getSeedStorePack_def, subst getSeedStorePacks_def, subst EnumerateStores.simps,
      subst EnumerateStores.simps)
     (simp add: exDepPkr_def exPkr_def isUsable_def checkIndependence_def)

text \<open>
  Claim C8. When no seed store pack is found in a block (for none of the lane counts
  64, 32, 16, 8, 4, 2 and none of the stores), \<open>optimizeBottomUp\<close> returns, with cost 0 and
  with the set of packs it was given: it commits no vector pack. The block is well
  formed, and the fuel exceeds the number of its instructions.
\<close>

theorem optimizeBottomUp_no_seed:
  assumes wf: "wellFormed bb"
    and none: "\<forall>VL \<in> set [64, 32, 16, 8, 4, 2]. \<forall>SI \<in> set Stores.
                 getSeedStorePack Pkr (Frontier bb) SI VL = None"
    and fuel: "length (block bb) < fuel"
  shows "optimizeBottomUp fuel bb T Pkr tryAdd Stores Packs = Some (0, Packs)"
proof -
  define st where "st = \<lparr> buFrt = Frontier bb, buCost = 0, buBestEst = 0, buPacks = Packs,
                          buSolver = ([] :: memo) \<rparr>"
  have l: "laneLoop fuel bb T Pkr tryAdd [64, 32, 16, 8, 4, 2] Stores st = Some st"
    by (rule laneLoop_no_seed) (use none in \<open>simp add: st_def\<close>)
  obtain m where m: "fuel = Suc m" using fuel by (cases fuel) auto
  have up: "UnresolvedPacks (Frontier bb) = []" by (simp add: Frontier_eq)
  have e: "extendLoop fuel fuel bb T Pkr tryAdd st =
             Some (st\<lparr> buSolver := [(buFrt st, \<lparr> dpCost = 0, dpVP = None \<rparr>)] \<rparr>)"
    unfolding m by (rule extendLoop_no_packs) (simp_all add: st_def up)
  have "card (FreeInsts (Frontier bb) \<inter> set (block bb)) \<le> card (set (block bb))"
    by (intro card_mono) auto
  also have "\<dots> \<le> length (block bb)" by (rule card_length)
  finally have c: "card (FreeInsts (Frontier bb) \<inter> set (block bb)) \<le> fuel"
    using fuel by simp
  obtain F' where s: "scalarizeAll fuel bb T (Frontier bb) 0 = Some (F', 0)"
    using scalarizeAll_returns[OF wf Frontier_scalarInv[OF wf] c] by blast
  show ?thesis
    unfolding optimizeBottomUp_def st_def[symmetric] l
    using e s by (simp add: st_def)
qed

theorem optimizeBottomUp_no_seed_witness:
  "optimizeBottomUp 5 exBB exTTI exDepPkr (\<lambda>Ps VP. VP # Ps) [2] [] = Some (0, [])"
proof -
  have "length (block exBB) < 5" by (simp add: exBB_def)
  then show ?thesis
    using optimizeBottomUp_no_seed[of exBB "[2]" exDepPkr 5 exTTI "\<lambda>Ps VP. VP # Ps" "[]"]
    by (simp add: exWellFormed exNoSeed)
qed

end
